theory Spec2Isabelle
  imports Main "HOL-Library.Word"
begin

unbundle bit_operations_syntax

section \<open>Values (value.h, value.c)\<close>

text \<open>
  common.h defines \<^verbatim>\<open>NAN_BOXING\<close>, so a \<^verbatim>\<open>Value\<close> is a \<^verbatim>\<open>uint64_t\<close> and the macros of the
  \<^verbatim>\<open>#else\<close> branch of value.h apply. A \<^verbatim>\<open>double\<close> is represented by its IEEE-754 binary64
  bit pattern: \<^verbatim>\<open>valueToNum\<close> and \<^verbatim>\<open>numToValue\<close> copy the eight bytes with \<^verbatim>\<open>memcpy\<close>.
\<close>

type_synonym Value = "64 word"
type_synonym double = "64 word"

definition SIGN_BIT :: "64 word" where
  "SIGN_BIT = 0x8000000000000000"

definition QNAN :: "64 word" where
  "QNAN = 0x7ffc000000000000"

definition TAG_NIL :: "64 word" where
  "TAG_NIL = 1"

definition TAG_FALSE :: "64 word" where
  "TAG_FALSE = 2"

definition TAG_TRUE :: "64 word" where
  "TAG_TRUE = 3"

definition FALSE_VAL :: Value where
  "FALSE_VAL = (QNAN OR TAG_FALSE)"

definition TRUE_VAL :: Value where
  "TRUE_VAL = (QNAN OR TAG_TRUE)"

definition NIL_VAL :: Value where
  "NIL_VAL = (QNAN OR TAG_NIL)"

definition BOOL_VAL :: "bool \<Rightarrow> Value" where
  "BOOL_VAL b = (if b then TRUE_VAL else FALSE_VAL)"

definition valueToNum :: "Value \<Rightarrow> double" where
  "valueToNum v = v"

definition numToValue :: "double \<Rightarrow> Value" where
  "numToValue num = num"

definition NUMBER_VAL :: "double \<Rightarrow> Value" where
  "NUMBER_VAL num = numToValue num"

definition OBJ_VAL :: "64 word \<Rightarrow> Value" where
  "OBJ_VAL obj = (SIGN_BIT OR QNAN OR obj)"

definition IS_BOOL :: "Value \<Rightarrow> bool" where
  "IS_BOOL v = ((v OR 1) = TRUE_VAL)"

definition IS_NIL :: "Value \<Rightarrow> bool" where
  "IS_NIL v = (v = NIL_VAL)"

definition IS_NUMBER :: "Value \<Rightarrow> bool" where
  "IS_NUMBER v = ((v AND QNAN) \<noteq> QNAN)"

definition IS_OBJ :: "Value \<Rightarrow> bool" where
  "IS_OBJ v = ((v AND (QNAN OR SIGN_BIT)) = (QNAN OR SIGN_BIT))"

definition AS_BOOL :: "Value \<Rightarrow> bool" where
  "AS_BOOL v = (v = TRUE_VAL)"

definition AS_NUMBER :: "Value \<Rightarrow> double" where
  "AS_NUMBER v = valueToNum v"

definition AS_OBJ :: "Value \<Rightarrow> 64 word" where
  "AS_OBJ v = (v AND NOT (SIGN_BIT OR QNAN))"

text \<open>
  The C operator \<^verbatim>\<open>==\<close> on two doubles, read off the bit patterns (IEEE-754 binary64:
  bit 63 is the sign, bits 62..52 the exponent, bits 51..0 the fraction). A NaN has all
  exponent bits set and a non-zero fraction and compares unequal to everything; the two
  zeros compare equal; every other number has exactly one bit pattern.
\<close>

definition double_isnan :: "double \<Rightarrow> bool" where
  "double_isnan d =
     ((d AND 0x7ff0000000000000) = 0x7ff0000000000000 \<and> (d AND 0x000fffffffffffff) \<noteq> 0)"

definition double_iszero :: "double \<Rightarrow> bool" where
  "double_iszero d = ((d AND 0x7fffffffffffffff) = 0)"

definition double_eq :: "double \<Rightarrow> double \<Rightarrow> bool" where
  "double_eq x y =
     (\<not> double_isnan x \<and> \<not> double_isnan y \<and> (x = y \<or> (double_iszero x \<and> double_iszero y)))"

text \<open>\<^verbatim>\<open>valuesEqual\<close>, the \<^verbatim>\<open>NAN_BOXING\<close> branch.\<close>

definition valuesEqual :: "Value \<Rightarrow> Value \<Rightarrow> bool" where
  "valuesEqual a b =
     (if IS_NUMBER a \<and> IS_NUMBER b then double_eq (AS_NUMBER a) (AS_NUMBER b)
      else a = b)"

text \<open>
  The variant of a value, decided in the order in which \<^verbatim>\<open>printValue\<close> tests the
  \<^verbatim>\<open>IS_\<close> macros. A bit pattern that none of them accepts has no variant.
\<close>

datatype ValueType = VAL_BOOL | VAL_NIL | VAL_NUMBER | VAL_OBJ

definition valueType :: "Value \<Rightarrow> ValueType option" where
  "valueType v =
     (if IS_BOOL v then Some VAL_BOOL
      else if IS_NIL v then Some VAL_NIL
      else if IS_NUMBER v then Some VAL_NUMBER
      else if IS_OBJ v then Some VAL_OBJ
      else None)"

definition pos_zero :: double where
  "pos_zero = 0"

definition neg_zero :: double where
  "neg_zero = 0x8000000000000000"

text \<open>The quiet NaN that x86-64 arithmetic produces (for instance for \<^verbatim>\<open>0.0 / 0.0\<close>).\<close>

definition default_nan :: double where
  "default_nan = 0xfff8000000000000"

section \<open>Strings and the hash table (object.h, object.c, table.h, table.c)\<close>

text \<open>
  A pointer to an \<^verbatim>\<open>ObjString\<close> is modelled by the string object it points to together with
  its address: the characters and the hash of a string never change after
  \<^verbatim>\<open>allocateString\<close>, so two pointers are equal exactly when the records are. The mark bit
  of the object header does change; where it is read it is a separate argument.
\<close>

record ObjString =
  obj_ref :: "64 word"
  chars :: string
  hash :: "32 word"

text \<open>\<^verbatim>\<open>hashString\<close>: FNV-1a over the bytes of the key, in \<^verbatim>\<open>uint32_t\<close> arithmetic.\<close>

definition hashString :: "string \<Rightarrow> 32 word" where
  "hashString cs = foldl (\<lambda>h c. (h XOR of_nat (of_char c)) * 16777619) 2166136261 cs"

text \<open>
  An \<^verbatim>\<open>Entry\<close>; the field \<^verbatim>\<open>value\<close> is called \<open>val\<close> here. A null key is \<open>None\<close>.
\<close>

record Entry =
  key :: "ObjString option"
  val :: Value

record Table =
  count :: int
  capacity :: int
  entries :: "Entry list"

definition initTable :: Table where
  "initTable = \<lparr>count = 0, capacity = 0, entries = []\<rparr>"

text \<open>
  \<^verbatim>\<open>findEntry\<close> returns a pointer into the entry array; the model returns the index. The
  loop \<^verbatim>\<open>for (;;)\<close> has no bound: on an array with no empty slot and without the key it
  never returns, and the result is \<open>None\<close>. A read outside the array (undefined in C) is
  \<open>None\<close> as well. The index is a \<^verbatim>\<open>uint32_t\<close>; \<^verbatim>\<open>capacity - 1\<close> is an \<^verbatim>\<open>int\<close> converted to
  \<^verbatim>\<open>uint32_t\<close> by the operator \<^verbatim>\<open>&\<close>.
\<close>

partial_function (option) findEntry_loop ::
  "Entry list \<Rightarrow> int \<Rightarrow> ObjString \<Rightarrow> 32 word \<Rightarrow> nat option \<Rightarrow> nat option" where
  "findEntry_loop es cap k index tombstone =
     (if unat index < length es then
        (if key (es ! unat index) = None then
           (if IS_NIL (val (es ! unat index)) then
              Some (case tombstone of Some t \<Rightarrow> t | None \<Rightarrow> unat index)
            else
              findEntry_loop es cap k ((index + 1) AND word_of_int (cap - 1))
                (if tombstone = None then Some (unat index) else tombstone))
         else if key (es ! unat index) = Some k then Some (unat index)
         else findEntry_loop es cap k ((index + 1) AND word_of_int (cap - 1)) tombstone)
      else None)"

declare findEntry_loop.simps [code]

definition findEntry :: "Entry list \<Rightarrow> int \<Rightarrow> ObjString \<Rightarrow> nat option" where
  "findEntry es cap k = findEntry_loop es cap k (hash k AND word_of_int (cap - 1)) None"

text \<open>
  \<^verbatim>\<open>tableGet\<close>: the outer \<open>option\<close> is \<open>None\<close> when \<^verbatim>\<open>findEntry\<close> does not return; the inner
  one is \<open>None\<close> for the result \<^verbatim>\<open>false\<close> and \<open>Some v\<close> for \<^verbatim>\<open>true\<close> with \<^verbatim>\<open>*value = v\<close>.
\<close>

definition tableGet :: "Table \<Rightarrow> ObjString \<Rightarrow> Value option option" where
  "tableGet table k =
     (if count table = 0 then Some None
      else
        (case findEntry (entries table) (capacity table) k of
           None \<Rightarrow> None
         | Some i \<Rightarrow>
             (if key (entries table ! i) = None then Some None
              else Some (Some (val (entries table ! i))))))"

text \<open>
  \<^verbatim>\<open>adjustCapacity\<close>: the second loop, over the old entries; \<open>new\<close> is the fresh array and
  \<open>cnt\<close> is \<^verbatim>\<open>table->count\<close>.
\<close>

fun adjustCapacity_loop ::
  "Entry list \<Rightarrow> Entry list \<Rightarrow> int \<Rightarrow> int \<Rightarrow> (Entry list \<times> int) option" where
  "adjustCapacity_loop [] new cap cnt = Some (new, cnt)"
| "adjustCapacity_loop (entry # old) new cap cnt =
     (case key entry of
        None \<Rightarrow> adjustCapacity_loop old new cap cnt
      | Some k \<Rightarrow>
          (case findEntry new cap k of
             None \<Rightarrow> None
           | Some dest \<Rightarrow>
               adjustCapacity_loop old
                 (new[dest := (new ! dest)\<lparr>key := key entry, val := val entry\<rparr>]) cap (cnt + 1)))"

definition adjustCapacity :: "Table \<Rightarrow> int \<Rightarrow> Table option" where
  "adjustCapacity table cap =
     (if int (length (entries table)) < capacity table then None
      else
        (case adjustCapacity_loop (take (nat (capacity table)) (entries table))
                (replicate (nat cap) \<lparr>key = None, val = NIL_VAL\<rparr>) cap 0 of
           None \<Rightarrow> None
         | Some (new, cnt) \<Rightarrow> Some \<lparr>count = cnt, capacity = cap, entries = new\<rparr>))"

definition GROW_CAPACITY :: "int \<Rightarrow> int" where
  "GROW_CAPACITY c = (if c < 8 then 8 else c * 2)"

text \<open>
  The test \<^verbatim>\<open>table->count + 1 > table->capacity * TABLE_MAX_LOAD\<close> with
  \<^verbatim>\<open>TABLE_MAX_LOAD\<close> = 0.75. Both sides are converted to \<^verbatim>\<open>double\<close>; for 32-bit integers the
  product with 0.75 is exact, so the comparison is the one between \<open>4 * (count + 1)\<close> and
  \<open>3 * capacity\<close>.
\<close>

definition exceeds_max_load :: "int \<Rightarrow> int \<Rightarrow> bool" where
  "exceeds_max_load cnt cap = (3 * cap < 4 * (cnt + 1))"

definition tableSet :: "Table \<Rightarrow> ObjString \<Rightarrow> Value \<Rightarrow> (bool \<times> Table) option" where
  "tableSet table k v =
     (case (if exceeds_max_load (count table) (capacity table)
            then adjustCapacity table (GROW_CAPACITY (capacity table))
            else Some table) of
        None \<Rightarrow> None
      | Some t \<Rightarrow>
          (case findEntry (entries t) (capacity t) k of
             None \<Rightarrow> None
           | Some i \<Rightarrow>
               (let isNewKey = (key (entries t ! i) = None)
                in Some (isNewKey,
                     t\<lparr>count := (if isNewKey \<and> IS_NIL (val (entries t ! i)) then count t + 1
                                  else count t),
                       entries := (entries t)[i := (entries t ! i)\<lparr>key := Some k, val := v\<rparr>]\<rparr>))))"

text \<open>
  \<^verbatim>\<open>tableDelete\<close>. The statement \<^verbatim>\<open>entry->key == NULL;\<close> of the source is a comparison whose
  result is discarded: it assigns nothing, so only the value of the entry changes.
\<close>

definition tableDelete :: "Table \<Rightarrow> ObjString \<Rightarrow> (bool \<times> Table) option" where
  "tableDelete table k =
     (if count table = 0 then Some (False, table)
      else
        (case findEntry (entries table) (capacity table) k of
           None \<Rightarrow> None
         | Some i \<Rightarrow>
             (if key (entries table ! i) = None then Some (False, table)
              else Some (True,
                     table\<lparr>entries :=
                       (entries table)[i := (entries table ! i)\<lparr>val := BOOL_VAL True\<rparr>]\<rparr>))))"

text \<open>
  \<^verbatim>\<open>tableRemoveWhite\<close>: \<open>isMarked\<close> gives the mark bit \<^verbatim>\<open>key->obj.isMarked\<close> that the mark
  phase left in each string object; the list holds the indices still to visit.
\<close>

fun tableRemoveWhite_loop :: "(ObjString \<Rightarrow> bool) \<Rightarrow> nat list \<Rightarrow> Table \<Rightarrow> Table option" where
  "tableRemoveWhite_loop isMarked [] table = Some table"
| "tableRemoveWhite_loop isMarked (i # rest) table =
     (if i < length (entries table) then
        (case key (entries table ! i) of
           None \<Rightarrow> tableRemoveWhite_loop isMarked rest table
         | Some k \<Rightarrow>
             (if \<not> isMarked k then
                (case tableDelete table k of
                   None \<Rightarrow> None
                 | Some (deleted, table') \<Rightarrow> tableRemoveWhite_loop isMarked rest table')
              else tableRemoveWhite_loop isMarked rest table))
      else None)"

definition tableRemoveWhite :: "(ObjString \<Rightarrow> bool) \<Rightarrow> Table \<Rightarrow> Table option" where
  "tableRemoveWhite isMarked table =
     tableRemoveWhite_loop isMarked [0..<nat (capacity table)] table"

text \<open>A tombstone, as the comment in \<^verbatim>\<open>tableDelete\<close> describes it: a null key with the value true.\<close>

definition is_tombstone :: "Entry \<Rightarrow> bool" where
  "is_tombstone e = (key e = None \<and> val e = BOOL_VAL True)"

text \<open>Sample strings: the objects that \<^verbatim>\<open>copyString\<close> makes for the texts \<open>a\<close> and \<open>x\<close>.\<close>

definition string_a :: ObjString where
  "string_a = \<lparr>obj_ref = 0x1000, chars = ''a'', hash = hashString ''a''\<rparr>"

definition string_x :: ObjString where
  "string_x = \<lparr>obj_ref = 0x2000, chars = ''x'', hash = hashString ''x''\<rparr>"

definition number_one :: double where
  "number_one = 0x3ff0000000000000"

definition empty_entry :: Entry where
  "empty_entry = \<lparr>key = None, val = NIL_VAL\<rparr>"

text \<open>The table with capacity 8 that holds the string \<open>a\<close> with the value \<open>v\<close> and nothing else.\<close>

definition table_a :: "Value \<Rightarrow> Table" where
  "table_a v = \<lparr>count = 1, capacity = 8,
     entries = (replicate 8 empty_entry)[4 := \<lparr>key = Some string_a, val = v\<rparr>]\<rparr>"

subsection \<open>Notions for reasoning about tables\<close>

text \<open>
  \<open>probe m k n\<close> is the slot that \<^verbatim>\<open>findEntry\<close> visits \<open>n\<close> steps after the first one, in an
  array of \<open>2 ^ m\<close> entries. An array is \<open>chained\<close> when it has \<open>2 ^ m\<close> entries, none of
  them a tombstone, and every key is reached from its first slot through slots that hold
  other keys. \<open>occupied\<close> counts the entries with a key.
\<close>

definition probe :: "nat \<Rightarrow> ObjString \<Rightarrow> nat \<Rightarrow> nat" where
  "probe m k n = (unat (hash k) mod 2 ^ m + n) mod 2 ^ m"

definition chained :: "nat \<Rightarrow> Entry list \<Rightarrow> bool" where
  "chained m es =
     (length es = 2 ^ m
      \<and> (\<forall>j<2 ^ m. key (es ! j) = None \<longrightarrow> val (es ! j) = NIL_VAL)
      \<and> (\<forall>j<2 ^ m. \<forall>k. key (es ! j) = Some k \<longrightarrow>
            (\<exists>n<2 ^ m. j = probe m k n
               \<and> (\<forall>q<n. \<exists>k'. key (es ! probe m k q) = Some k' \<and> k' \<noteq> k))))"

definition occupied :: "Entry list \<Rightarrow> nat" where
  "occupied es = length (filter (\<lambda>e. key e \<noteq> None) es)"

section \<open>The scanner (scanner.h, scanner.c)\<close>

datatype TokenType =
    TOKEN_LEFT_PAREN | TOKEN_RIGHT_PAREN | TOKEN_LEFT_BRACE | TOKEN_RIGHT_BRACE
  | TOKEN_COMMA | TOKEN_DOT | TOKEN_MINUS | TOKEN_PLUS | TOKEN_SEMICOLON | TOKEN_SLASH | TOKEN_STAR
  | TOKEN_BANG | TOKEN_BANG_EQUAL | TOKEN_EQUAL | TOKEN_EQUAL_EQUAL
  | TOKEN_GREATER | TOKEN_GREATER_EQUAL | TOKEN_LESS | TOKEN_LESS_EQUAL
  | TOKEN_IDENTIFIER | TOKEN_STRING | TOKEN_NUMBER
  | TOKEN_AND | TOKEN_CLASS | TOKEN_ELSE | TOKEN_FALSE | TOKEN_FOR | TOKEN_FUN | TOKEN_IF
  | TOKEN_NIL | TOKEN_OR | TOKEN_PRINT | TOKEN_RETURN | TOKEN_SUPER | TOKEN_THIS | TOKEN_TRUE
  | TOKEN_VAR | TOKEN_WHILE
  | TOKEN_ERROR | TOKEN_EOF

text \<open>
  A \<^verbatim>\<open>Token\<close> points at its lexeme with \<^verbatim>\<open>start\<close> and \<^verbatim>\<open>length\<close>; the model holds the
  characters. The field \<^verbatim>\<open>line\<close> of a token is \<open>token_line\<close> here.
\<close>

record Token =
  type :: TokenType
  lexeme :: string
  token_line :: int

text \<open>
  The scanner. \<open>source\<close> is the text that \<^verbatim>\<open>initScanner\<close> received, without its terminating
  NUL; \<open>start\<close> and \<open>current\<close> are the offsets of the two pointers into it. Reading at the
  end of the text reads the terminator.
\<close>

record Scanner =
  source :: string
  start :: nat
  current :: nat
  line :: int

definition initScanner :: "string \<Rightarrow> Scanner" where
  "initScanner src = \<lparr>source = src, start = 0, current = 0, line = 1\<rparr>"

definition char_at :: "Scanner \<Rightarrow> nat \<Rightarrow> char" where
  "char_at sc i = (if i < length (source sc) then source sc ! i else CHR 0x00)"

definition isAlpha :: "char \<Rightarrow> bool" where
  "isAlpha c =
     ((of_char (CHR ''a'') \<le> (of_char c :: nat) \<and> (of_char c :: nat) \<le> of_char (CHR ''z''))
      \<or> (of_char (CHR ''A'') \<le> (of_char c :: nat) \<and> (of_char c :: nat) \<le> of_char (CHR ''Z''))
      \<or> c = CHR ''_'')"

definition isDigit :: "char \<Rightarrow> bool" where
  "isDigit c =
     (of_char (CHR ''0'') \<le> (of_char c :: nat) \<and> (of_char c :: nat) \<le> of_char (CHR ''9''))"

definition peek :: "Scanner \<Rightarrow> char" where
  "peek sc = char_at sc (current sc)"

definition isAtEnd :: "Scanner \<Rightarrow> bool" where
  "isAtEnd sc = (peek sc = CHR 0x00)"

text \<open>\<^verbatim>\<open>advance\<close> moves the scanner on; the character it returns is \<open>advanced_char\<close>.\<close>

definition advance :: "Scanner \<Rightarrow> Scanner" where
  "advance sc = sc\<lparr>current := current sc + 1\<rparr>"

definition advanced_char :: "Scanner \<Rightarrow> char" where
  "advanced_char sc = char_at sc (current sc - 1)"

definition peekNext :: "Scanner \<Rightarrow> char" where
  "peekNext sc = (if isAtEnd sc then CHR 0x00 else char_at sc (current sc + 1))"

definition match :: "Scanner \<Rightarrow> char \<Rightarrow> bool \<times> Scanner" where
  "match sc expected =
     (if isAtEnd sc then (False, sc)
      else if peek sc \<noteq> expected then (False, sc)
      else (True, sc\<lparr>current := current sc + 1\<rparr>))"

definition makeToken :: "Scanner \<Rightarrow> TokenType \<Rightarrow> Token" where
  "makeToken sc ty =
     \<lparr>type = ty, lexeme = take (current sc - start sc) (drop (start sc) (source sc)),
      token_line = line sc\<rparr>"

definition errorToken :: "Scanner \<Rightarrow> string \<Rightarrow> Token" where
  "errorToken sc message = \<lparr>type = TOKEN_ERROR, lexeme = message, token_line = line sc\<rparr>"

lemma peek_in_text: "peek sc \<noteq> CHR 0x00 \<Longrightarrow> current sc < length (source sc)"
  by (simp add: peek_def char_at_def split: if_splits)

text \<open>
  The functions \<^verbatim>\<open>identifier\<close>, \<^verbatim>\<open>number\<close> and \<^verbatim>\<open>string\<close> of the source are
  \<open>identifier_token\<close>, \<open>number_token\<close> and \<open>string_token\<close> below.
\<close>

text \<open>The loop of the comment case: \<^verbatim>\<open>while (peek() != '\n' && !isAtEnd()) advance();\<close>\<close>

function skipComment :: "Scanner \<Rightarrow> Scanner" where
  "skipComment sc =
     (if peek sc \<noteq> CHR 0x0A \<and> \<not> isAtEnd sc then skipComment (advance sc) else sc)"
  by pat_completeness auto
termination
  by (relation "measure (\<lambda>sc. length (source sc) - current sc)")
     (auto simp: advance_def isAtEnd_def dest: peek_in_text)

text \<open>
  \<^verbatim>\<open>skipWhitespace\<close>. In the source the case \<^verbatim>\<open>'/'\<close> of the switch does not end with
  \<^verbatim>\<open>break\<close>: after the loop that skips a comment, control falls through into
  \<^verbatim>\<open>default: return;\<close> and the function returns with the scanner at the end of the comment.
\<close>

function skipWhitespace :: "Scanner \<Rightarrow> Scanner" where
  "skipWhitespace sc =
     (if peek sc = CHR '' '' \<or> peek sc = CHR 0x0D \<or> peek sc = CHR 0x09 then
        skipWhitespace (advance sc)
      else if peek sc = CHR 0x0A then
        skipWhitespace (advance (sc\<lparr>line := line sc + 1\<rparr>))
      else if peek sc = CHR ''/'' then
        (if peekNext sc = CHR ''/'' then skipComment sc else sc)
      else sc)"
  by pat_completeness auto
termination
  by (relation "measure (\<lambda>sc. length (source sc) - current sc)")
     (auto simp: advance_def peek_def char_at_def split: if_splits)

definition checkKeyword :: "Scanner \<Rightarrow> nat \<Rightarrow> nat \<Rightarrow> string \<Rightarrow> TokenType \<Rightarrow> TokenType" where
  "checkKeyword sc strt len rest' ty =
     (if current sc - start sc = strt + len
         \<and> take len (drop (start sc + strt) (source sc)) = take len rest'
      then ty else TOKEN_IDENTIFIER)"

definition identifierType :: "Scanner \<Rightarrow> TokenType" where
  "identifierType sc =
     (let c0 = char_at sc (start sc); c1 = char_at sc (start sc + 1) in
      if c0 = CHR ''a'' then checkKeyword sc 1 2 ''nd'' TOKEN_AND
      else if c0 = CHR ''c'' then checkKeyword sc 1 4 ''lass'' TOKEN_CLASS
      else if c0 = CHR ''e'' then checkKeyword sc 1 3 ''lse'' TOKEN_ELSE
      else if c0 = CHR ''f'' then
        (if current sc - start sc > 1 then
           (if c1 = CHR ''a'' then checkKeyword sc 2 3 ''lse'' TOKEN_FALSE
            else if c1 = CHR ''o'' then checkKeyword sc 2 1 ''r'' TOKEN_FOR
            else if c1 = CHR ''u'' then checkKeyword sc 2 1 ''n'' TOKEN_FUN
            else TOKEN_IDENTIFIER)
         else TOKEN_IDENTIFIER)
      else if c0 = CHR ''i'' then checkKeyword sc 1 1 ''f'' TOKEN_IF
      else if c0 = CHR ''n'' then checkKeyword sc 1 2 ''il'' TOKEN_NIL
      else if c0 = CHR ''o'' then checkKeyword sc 1 1 ''r'' TOKEN_OR
      else if c0 = CHR ''p'' then checkKeyword sc 1 4 ''rint'' TOKEN_PRINT
      else if c0 = CHR ''r'' then checkKeyword sc 1 5 ''eturn'' TOKEN_RETURN
      else if c0 = CHR ''s'' then checkKeyword sc 1 4 ''uper'' TOKEN_SUPER
      else if c0 = CHR ''t'' then
        (if current sc - start sc > 1 then
           (if c1 = CHR ''h'' then checkKeyword sc 2 2 ''is'' TOKEN_THIS
            else if c1 = CHR ''r'' then checkKeyword sc 2 2 ''ue'' TOKEN_TRUE
            else TOKEN_IDENTIFIER)
         else TOKEN_IDENTIFIER)
      else if c0 = CHR ''v'' then checkKeyword sc 1 2 ''ar'' TOKEN_VAR
      else if c0 = CHR ''w'' then checkKeyword sc 1 4 ''hile'' TOKEN_WHILE
      else TOKEN_IDENTIFIER)"

lemma isAlpha_in_text: "isAlpha (peek sc) \<Longrightarrow> current sc < length (source sc)"
  by (rule peek_in_text) (auto simp: isAlpha_def)

lemma isDigit_in_text: "isDigit (peek sc) \<Longrightarrow> current sc < length (source sc)"
  by (rule peek_in_text) (auto simp: isDigit_def)

function identifier_loop :: "Scanner \<Rightarrow> Scanner" where
  "identifier_loop sc =
     (if isAlpha (peek sc) \<or> isDigit (peek sc) then identifier_loop (advance sc) else sc)"
  by pat_completeness auto
termination
  by (relation "measure (\<lambda>sc. length (source sc) - current sc)")
     (auto simp: advance_def dest: isAlpha_in_text isDigit_in_text)

definition identifier_token :: "Scanner \<Rightarrow> Token \<times> Scanner" where
  "identifier_token sc = (let sc' = identifier_loop sc in (makeToken sc' (identifierType sc'), sc'))"

function digits_loop :: "Scanner \<Rightarrow> Scanner" where
  "digits_loop sc = (if isDigit (peek sc) then digits_loop (advance sc) else sc)"
  by pat_completeness auto
termination
  by (relation "measure (\<lambda>sc. length (source sc) - current sc)")
     (auto simp: advance_def dest: isDigit_in_text)

definition number_token :: "Scanner \<Rightarrow> Token \<times> Scanner" where
  "number_token sc =
     (let sc1 = digits_loop sc;
          sc2 = (if peek sc1 = CHR ''.'' \<and> isDigit (peekNext sc1)
                 then digits_loop (advance sc1) else sc1)
      in (makeToken sc2 TOKEN_NUMBER, sc2))"

function string_loop :: "Scanner \<Rightarrow> Scanner" where
  "string_loop sc =
     (if peek sc \<noteq> CHR 0x22 \<and> \<not> isAtEnd sc then
        string_loop (advance (if peek sc = CHR 0x0A then sc\<lparr>line := line sc + 1\<rparr> else sc))
      else sc)"
  by pat_completeness auto
termination
  by (relation "measure (\<lambda>sc. length (source sc) - current sc)")
     (auto simp: advance_def isAtEnd_def peek_def char_at_def split: if_splits)

definition string_token :: "Scanner \<Rightarrow> Token \<times> Scanner" where
  "string_token sc =
     (let sc1 = string_loop sc in
      if isAtEnd sc1 then (errorToken sc1 ''Unterminated string.'', sc1)
      else (let sc2 = advance sc1 in (makeToken sc2 TOKEN_STRING, sc2)))"

definition match_token :: "Scanner \<Rightarrow> char \<Rightarrow> TokenType \<Rightarrow> TokenType \<Rightarrow> Token \<times> Scanner" where
  "match_token sc expected yes no =
     (let (m, sc') = match sc expected in (makeToken sc' (if m then yes else no), sc'))"

definition scanToken :: "Scanner \<Rightarrow> Token \<times> Scanner" where
  "scanToken sc0 =
     (let sc1 = skipWhitespace sc0;
          sc2 = sc1\<lparr>start := current sc1\<rparr>
      in if isAtEnd sc2 then (makeToken sc2 TOKEN_EOF, sc2)
         else
           (let sc = advance sc2; c = advanced_char sc in
            if isAlpha c then identifier_token sc
            else if isDigit c then number_token sc
            else if c = CHR ''('' then (makeToken sc TOKEN_LEFT_PAREN, sc)
            else if c = CHR '')'' then (makeToken sc TOKEN_RIGHT_PAREN, sc)
            else if c = CHR ''{'' then (makeToken sc TOKEN_LEFT_BRACE, sc)
            else if c = CHR ''}'' then (makeToken sc TOKEN_RIGHT_BRACE, sc)
            else if c = CHR '';'' then (makeToken sc TOKEN_SEMICOLON, sc)
            else if c = CHR '','' then (makeToken sc TOKEN_COMMA, sc)
            else if c = CHR ''.'' then (makeToken sc TOKEN_DOT, sc)
            else if c = CHR ''-'' then (makeToken sc TOKEN_MINUS, sc)
            else if c = CHR ''+'' then (makeToken sc TOKEN_PLUS, sc)
            else if c = CHR ''/'' then (makeToken sc TOKEN_SLASH, sc)
            else if c = CHR ''*'' then (makeToken sc TOKEN_STAR, sc)
            else if c = CHR ''!'' then match_token sc (CHR ''='') TOKEN_BANG_EQUAL TOKEN_BANG
            else if c = CHR ''='' then match_token sc (CHR ''='') TOKEN_EQUAL_EQUAL TOKEN_EQUAL
            else if c = CHR ''<'' then match_token sc (CHR ''='') TOKEN_LESS_EQUAL TOKEN_LESS
            else if c = CHR ''>'' then match_token sc (CHR ''='') TOKEN_GREATER_EQUAL TOKEN_GREATER
            else if c = CHR 0x22 then string_token sc
            else (errorToken sc ''Unexpected character.'', sc)))"

text \<open>The text of two lines: a comment, then the identifier \<open>x\<close>.\<close>

definition comment_then_x :: string where
  "comment_then_x = ''// c'' @ [CHR 0x0A] @ ''x''"

section \<open>The virtual machine (object.h, vm.h, vm.c)\<close>

text \<open>
  Heap objects. A pointer to an object is its address, a 64-bit word (the word that
  \<^verbatim>\<open>OBJ_VAL\<close> packs into a value and \<^verbatim>\<open>AS_OBJ\<close> extracts). An object is its tag together with
  the fields of its struct that the modelled code reads; the header fields \<^verbatim>\<open>isMarked\<close> and
  \<^verbatim>\<open>next\<close> belong to the collector and are left out, as is the chunk of a function.

  The \<^verbatim>\<open>location\<close> of an upvalue points either at a slot of the value stack (the index of
  the slot) or at the upvalue's own field \<^verbatim>\<open>closed\<close>.

  A native function may read the process clock: its first argument is the value of
  \<^verbatim>\<open>(double)clock() / CLOCKS_PER_SEC\<close> at the moment of the call; the other two are
  \<^verbatim>\<open>argCount\<close> and the \<^verbatim>\<open>argCount\<close> values that \<^verbatim>\<open>args\<close> points at.
\<close>

datatype Location = StackSlot nat | ClosedField

type_synonym NativeFn = "double \<Rightarrow> nat \<Rightarrow> Value list \<Rightarrow> Value"

datatype Obj =
    OBJ_BOUND_METHOD Value "64 word"
  | OBJ_CLASS ObjString Table
  | OBJ_CLOSURE "64 word" "64 word list"
  | OBJ_FUNCTION int int "ObjString option"
  | OBJ_INSTANCE "64 word" Table
  | OBJ_NATIVE NativeFn
  | OBJ_STRING ObjString
  | OBJ_UPVALUE Location Value

type_synonym Heap = "64 word \<Rightarrow> Obj option"

text \<open>
  A call frame: \<open>ip\<close> is the offset of the instruction pointer into the code of the
  closure's function, \<open>slots\<close> the index of the stack slot that \<^verbatim>\<open>slots\<close> points at.
\<close>

record CallFrame =
  closure :: "64 word"
  ip :: nat
  slots :: int

datatype fmt_arg = ArgInt int | ArgStr string

text \<open>
  The state of the machine. \<open>frames\<close> are the \<^verbatim>\<open>frameCount\<close> frames in use and \<open>stack\<close> the
  slots below \<^verbatim>\<open>stackTop\<close>, bottom first. \<open>openUpvalues\<close> lists the upvalues linked
  through their \<^verbatim>\<open>next\<close> pointers, head first. \<open>stderr\<close> collects what \<^verbatim>\<open>runtimeError\<close>
  prints: the format with its arguments (the stack trace that follows it is not recorded).
  The fields of the collector are left out.
\<close>

record VM =
  frames :: "CallFrame list"
  stack :: "Value list"
  globals :: Table
  strings :: Table
  initString :: ObjString
  openUpvalues :: "64 word list"
  heap :: Heap
  stderr :: "(string \<times> fmt_arg list) list"

datatype InterpretResult = INTERPRET_OK | INTERPRET_COMPILE_ERROR | INTERPRET_RUNTIME_ERROR

text \<open>
  What one instruction of \<^verbatim>\<open>run\<close> leaves: the loop goes on with the next instruction, or
  \<^verbatim>\<open>run\<close> returns.
\<close>

datatype Step = Next VM | Return InterpretResult VM

definition FRAMES_MAX :: nat where
  "FRAMES_MAX = 64"

definition resetStack :: "VM \<Rightarrow> VM" where
  "resetStack vm = vm\<lparr>stack := [], frames := [], openUpvalues := []\<rparr>"

definition runtimeError :: "VM \<Rightarrow> string \<Rightarrow> fmt_arg list \<Rightarrow> VM" where
  "runtimeError vm format args = resetStack (vm\<lparr>stderr := stderr vm @ [(format, args)]\<rparr>)"

text \<open>
  \<^verbatim>\<open>push\<close>, \<^verbatim>\<open>pop\<close> and the \<^verbatim>\<open>peek\<close> of vm.c (here \<open>stack_peek\<close>). Reading below the bottom of
  the stack is undefined in C and \<open>None\<close> here.
\<close>

definition push :: "VM \<Rightarrow> Value \<Rightarrow> VM" where
  "push vm v = vm\<lparr>stack := stack vm @ [v]\<rparr>"

definition pop :: "VM \<Rightarrow> (Value \<times> VM) option" where
  "pop vm =
     (if stack vm = [] then None
      else Some (last (stack vm), vm\<lparr>stack := butlast (stack vm)\<rparr>))"

definition stack_peek :: "VM \<Rightarrow> nat \<Rightarrow> Value option" where
  "stack_peek vm distance =
     (if distance < length (stack vm) then Some (stack vm ! (length (stack vm) - 1 - distance))
      else None)"

text \<open>
  \<^verbatim>\<open>call\<close>. A closure pointer that does not point at a closure whose function pointer points
  at a function has no defined behaviour (\<open>None\<close>).
\<close>

definition call :: "VM \<Rightarrow> 64 word \<Rightarrow> nat \<Rightarrow> (bool \<times> VM) option" where
  "call vm clos argCount =
     (case heap vm clos of
        Some (OBJ_CLOSURE fn ups) \<Rightarrow>
          (case heap vm fn of
             Some (OBJ_FUNCTION arity upvalueCount name) \<Rightarrow>
               (if int argCount \<noteq> arity then
                  Some (False, runtimeError vm ''Expected %d arguments but got %d''
                                 [ArgInt arity, ArgInt (int argCount)])
                else if length (frames vm) = FRAMES_MAX then
                  Some (False, runtimeError vm ''Stack overflow.'' [])
                else
                  Some (True, vm\<lparr>frames := frames vm @
                    [\<lparr>closure = clos, ip = 0,
                      slots = int (length (stack vm)) - int argCount - 1\<rparr>]\<rparr>))
           | _ \<Rightarrow> None)
      | _ \<Rightarrow> None)"

text \<open>
  \<^verbatim>\<open>newInstance\<close>: \<open>fresh\<close> is the address that \<^verbatim>\<open>reallocate\<close> returns for the new object.
  (\<^verbatim>\<open>reallocate\<close> may run the collector first; the collector is not modelled.)
\<close>

definition newInstance :: "64 word \<Rightarrow> VM \<Rightarrow> 64 word \<Rightarrow> VM" where
  "newInstance fresh vm klass = vm\<lparr>heap := (heap vm)(fresh \<mapsto> OBJ_INSTANCE klass initTable)\<rparr>"

text \<open>
  \<^verbatim>\<open>callValue\<close>. \<open>now\<close> is the clock reading a native function sees and \<open>fresh\<close> the address
  of the instance the call may allocate. Writing the callee slot
  \<^verbatim>\<open>vm.stackTop[-argCount - 1]\<close> below the bottom of the stack is \<open>None\<close>.
\<close>

definition callValue :: "double \<Rightarrow> 64 word \<Rightarrow> VM \<Rightarrow> Value \<Rightarrow> nat \<Rightarrow> (bool \<times> VM) option" where
  "callValue now fresh vm callee argCount =
     (if IS_OBJ callee then
        (case heap vm (AS_OBJ callee) of
           None \<Rightarrow> None
         | Some (OBJ_BOUND_METHOD receiver bound_method) \<Rightarrow>
             (if argCount < length (stack vm) then
                call (vm\<lparr>stack := (stack vm)[length (stack vm) - argCount - 1 := receiver]\<rparr>)
                  bound_method argCount
              else None)
         | Some (OBJ_CLASS name methods) \<Rightarrow>
             (let klass = AS_OBJ callee;
                  vm1 = newInstance fresh vm klass
              in if argCount < length (stack vm1) then
                   (let vm2 = vm1\<lparr>stack :=
                          (stack vm1)[length (stack vm1) - argCount - 1 := OBJ_VAL fresh]\<rparr>
                    in case heap vm2 klass of
                         Some (OBJ_CLASS name' methods') \<Rightarrow>
                           (case tableGet methods' (initString vm2) of
                              None \<Rightarrow> None
                            | Some (Some initializer) \<Rightarrow> call vm2 (AS_OBJ initializer) argCount
                            | Some None \<Rightarrow>
                                (if argCount \<noteq> 0 then
                                   Some (False, runtimeError vm2 ''Expected 0  arguments but got %d.''
                                                  [ArgInt (int argCount)])
                                 else Some (True, vm2)))
                       | _ \<Rightarrow> None)
                 else None)
         | Some (OBJ_CLOSURE fn ups) \<Rightarrow> call vm (AS_OBJ callee) argCount
         | Some (OBJ_NATIVE native) \<Rightarrow>
             (if argCount < length (stack vm) then
                (let result = native now argCount (drop (length (stack vm) - argCount) (stack vm))
                 in Some (True, push (vm\<lparr>stack := take (length (stack vm) - (argCount + 1)) (stack vm)\<rparr>)
                                  result))
              else None)
         | Some _ \<Rightarrow> Some (False, runtimeError vm ''Can only call functions and classes.'' []))
      else Some (False, runtimeError vm ''Can only call functions and classes.'' []))"

text \<open>\<^verbatim>\<open>clockNative\<close> returns the clock reading as a number, whatever it is called with.\<close>

definition clockNative :: NativeFn where
  "clockNative now argCount args = NUMBER_VAL now"

subsection \<open>Instructions\<close>

text \<open>
  The cases of the switch in \<^verbatim>\<open>run\<close> that the properties below are about, each as a function
  of the state and of the operands that \<^verbatim>\<open>READ_BYTE\<close> and \<^verbatim>\<open>READ_STRING\<close> decode.
\<close>

definition op_define_global :: "VM \<Rightarrow> ObjString \<Rightarrow> Step option" where
  "op_define_global vm name =
     (case stack_peek vm 0 of
        None \<Rightarrow> None
      | Some v \<Rightarrow>
          (case tableSet (globals vm) name v of
             None \<Rightarrow> None
           | Some (isNewKey, g) \<Rightarrow>
               (case pop (vm\<lparr>globals := g\<rparr>) of
                  None \<Rightarrow> None
                | Some (popped, vm') \<Rightarrow> Some (Next vm'))))"

definition op_set_global :: "VM \<Rightarrow> ObjString \<Rightarrow> Step option" where
  "op_set_global vm name =
     (case stack_peek vm 0 of
        None \<Rightarrow> None
      | Some v \<Rightarrow>
          (case tableSet (globals vm) name v of
             None \<Rightarrow> None
           | Some (isNewKey, g) \<Rightarrow>
               (if isNewKey then
                  (case tableDelete g name of
                     None \<Rightarrow> None
                   | Some (deleted, g') \<Rightarrow>
                       Some (Return INTERPRET_RUNTIME_ERROR
                               (runtimeError (vm\<lparr>globals := g'\<rparr>) ''Undefined variable '%s'.''
                                  [ArgStr (chars name)])))
                else Some (Next (vm\<lparr>globals := g\<rparr>)))))"

definition op_get_global :: "VM \<Rightarrow> ObjString \<Rightarrow> Step option" where
  "op_get_global vm name =
     (case tableGet (globals vm) name of
        None \<Rightarrow> None
      | Some None \<Rightarrow>
          Some (Return INTERPRET_RUNTIME_ERROR
                  (runtimeError vm ''Undefined variable '%s'.'' [ArgStr (chars name)]))
      | Some (Some v) \<Rightarrow> Some (Next (push vm v)))"

definition op_call :: "double \<Rightarrow> 64 word \<Rightarrow> VM \<Rightarrow> nat \<Rightarrow> Step option" where
  "op_call now fresh vm argCount =
     (case stack_peek vm argCount of
        None \<Rightarrow> None
      | Some callee \<Rightarrow>
          (case callValue now fresh vm callee argCount of
             None \<Rightarrow> None
           | Some (ok, vm') \<Rightarrow>
               Some (if ok then Next vm' else Return INTERPRET_RUNTIME_ERROR vm')))"

subsection \<open>Open upvalues\<close>

text \<open>
  The slot an open upvalue points at. The list of open upvalues only ever holds open
  upvalues (\<^verbatim>\<open>closeUpvalues\<close> unlinks an upvalue in the step that closes it), so the pointer
  comparisons of \<^verbatim>\<open>captureUpvalue\<close> and \<^verbatim>\<open>closeUpvalues\<close> compare two addresses of stack slots;
  for a pointer that is not an open upvalue the model answers that the comparison fails.
\<close>

definition slot_of :: "Heap \<Rightarrow> 64 word \<Rightarrow> nat option" where
  "slot_of h u =
     (case h u of
        Some (OBJ_UPVALUE (StackSlot n) c) \<Rightarrow> Some n
      | _ \<Rightarrow> None)"

definition location_above :: "Heap \<Rightarrow> nat \<Rightarrow> 64 word \<Rightarrow> bool" where
  "location_above h local u = (case slot_of h u of Some n \<Rightarrow> local < n | None \<Rightarrow> False)"

definition location_is :: "Heap \<Rightarrow> nat \<Rightarrow> 64 word \<Rightarrow> bool" where
  "location_is h local u = (case slot_of h u of Some n \<Rightarrow> n = local | None \<Rightarrow> False)"

definition newUpvalue :: "64 word \<Rightarrow> VM \<Rightarrow> nat \<Rightarrow> VM" where
  "newUpvalue fresh vm slot = vm\<lparr>heap := (heap vm)(fresh \<mapsto> OBJ_UPVALUE (StackSlot slot) NIL_VAL)\<rparr>"

text \<open>
  \<^verbatim>\<open>captureUpvalue\<close>: the loop walks past the upvalues whose location lies above \<open>local\<close>;
  \<open>takeWhile\<close> gives the upvalues walked past (the last of them is \<^verbatim>\<open>prevUpvalue\<close>) and
  \<open>dropWhile\<close> the rest of the list (its head is \<^verbatim>\<open>upvalue\<close>). \<open>fresh\<close> is the address of the
  upvalue that \<^verbatim>\<open>newUpvalue\<close> allocates.
\<close>

definition captureUpvalue :: "64 word \<Rightarrow> VM \<Rightarrow> nat \<Rightarrow> 64 word \<times> VM" where
  "captureUpvalue fresh vm local =
     (let walked = takeWhile (location_above (heap vm) local) (openUpvalues vm);
          rest = dropWhile (location_above (heap vm) local) (openUpvalues vm)
      in if rest \<noteq> [] \<and> location_is (heap vm) local (hd rest) then (hd rest, vm)
         else (fresh, (newUpvalue fresh vm local)\<lparr>openUpvalues := walked @ fresh # rest\<rparr>))"

text \<open>
  \<^verbatim>\<open>closeUpvalues\<close>: while the head of the list points at a slot at or above \<^verbatim>\<open>last\<close>
  (here \<open>last_slot\<close>), copy
  the slot into the upvalue, redirect the upvalue to its own field and unlink it.
\<close>

fun closeUpvalues_loop :: "Value list \<Rightarrow> nat \<Rightarrow> Heap \<Rightarrow> 64 word list \<Rightarrow> Heap \<times> 64 word list" where
  "closeUpvalues_loop stk last_slot h [] = (h, [])"
| "closeUpvalues_loop stk last_slot h (u # rest) =
     (case slot_of h u of
        Some n \<Rightarrow>
          (if last_slot \<le> n then
             closeUpvalues_loop stk last_slot (h(u \<mapsto> OBJ_UPVALUE ClosedField (stk ! n))) rest
           else (h, u # rest))
      | None \<Rightarrow> (h, u # rest))"

definition closeUpvalues :: "VM \<Rightarrow> nat \<Rightarrow> VM" where
  "closeUpvalues vm last_slot =
     (case closeUpvalues_loop (stack vm) last_slot (heap vm) (openUpvalues vm) of
        (h, rest) \<Rightarrow> vm\<lparr>heap := h, openUpvalues := rest\<rparr>)"

text \<open>A list whose elements strictly descend under the measure \<open>s\<close>.\<close>

definition desc :: "('a \<Rightarrow> nat) \<Rightarrow> 'a list \<Rightarrow> bool" where
  "desc s us = sorted_wrt (\<lambda>a b. s b < s a) us"

text \<open>
  The invariant of the list: every element is an open upvalue, and the slots strictly
  descend from the head on.
\<close>

definition open_upvalues_sorted :: "VM \<Rightarrow> bool" where
  "open_upvalues_sorted vm =
     (list_all (\<lambda>u. slot_of (heap vm) u \<noteq> None) (openUpvalues vm)
      \<and> sorted_wrt (\<lambda>a b. b < a) (map (\<lambda>u. the (slot_of (heap vm) u)) (openUpvalues vm)))"

text \<open>
  The states of the list between two instructions. The list is empty after \<^verbatim>\<open>initVM\<close> and
  after a runtime error (\<^verbatim>\<open>resetStack\<close>); \<^verbatim>\<open>OP_CLOSURE\<close> calls \<^verbatim>\<open>captureUpvalue\<close>,
  \<^verbatim>\<open>OP_CLOSE_UPVALUE\<close> and \<^verbatim>\<open>OP_RETURN\<close> call \<^verbatim>\<open>closeUpvalues\<close>; nothing else in the source
  assigns \<^verbatim>\<open>vm.openUpvalues\<close>, a \<^verbatim>\<open>next\<close> pointer or a \<^verbatim>\<open>location\<close>, so every other step leaves
  the list and the locations of its upvalues as they are.
\<close>

inductive upvalues_reachable :: "VM \<Rightarrow> bool" where
  reset: "upvalues_reachable (resetStack vm)"
| capture: "upvalues_reachable vm \<Longrightarrow> heap vm fresh = None
            \<Longrightarrow> upvalues_reachable (snd (captureUpvalue fresh vm local))"
| close: "upvalues_reachable vm \<Longrightarrow> upvalues_reachable (closeUpvalues vm last_slot)"
| other: "upvalues_reachable vm \<Longrightarrow> openUpvalues vm' = openUpvalues vm
          \<Longrightarrow> list_all (\<lambda>u. slot_of (heap vm') u = slot_of (heap vm) u) (openUpvalues vm)
          \<Longrightarrow> upvalues_reachable vm'"

subsection \<open>Sample states\<close>

definition string_clock :: ObjString where
  "string_clock = \<lparr>obj_ref = 0x3000, chars = ''clock'', hash = hashString ''clock''\<rparr>"

definition string_init :: ObjString where
  "string_init = \<lparr>obj_ref = 0x4000, chars = ''init'', hash = hashString ''init''\<rparr>"

text \<open>The globals after \<^verbatim>\<open>initVM\<close>: the native function \<open>clock\<close>, an object at \<open>0x5000\<close>.\<close>

definition globals_clock :: Table where
  "globals_clock = \<lparr>count = 1, capacity = 8,
     entries = (replicate 8 empty_entry)[5 := \<lparr>key = Some string_clock, val = OBJ_VAL 0x5000\<rparr>]\<rparr>"

text \<open>The same table with a second entry, for the string \<open>x\<close>.\<close>

definition globals_clock_x :: "Value \<Rightarrow> Table" where
  "globals_clock_x v = \<lparr>count = 2, capacity = 8,
     entries = (replicate 8 empty_entry)
       [5 := \<lparr>key = Some string_clock, val = OBJ_VAL 0x5000\<rparr>,
        7 := \<lparr>key = Some string_x, val = v\<rparr>]\<rparr>"

definition interned_strings :: Table where
  "interned_strings = \<lparr>count = 3, capacity = 8,
     entries = (replicate 8 empty_entry)
       [3 := \<lparr>key = Some string_init, val = NIL_VAL\<rparr>,
        5 := \<lparr>key = Some string_clock, val = NIL_VAL\<rparr>,
        7 := \<lparr>key = Some string_x, val = NIL_VAL\<rparr>]\<rparr>"

text \<open>
  The machine while it runs a script in a fresh interpreter, with the script's closure in
  slot 0 and \<open>temps\<close> above it.
\<close>

definition vm_script :: "Value list \<Rightarrow> VM" where
  "vm_script temps =
     \<lparr>frames = [\<lparr>closure = 0x7000, ip = 4, slots = 0\<rparr>],
      stack = OBJ_VAL 0x7000 # temps,
      globals = globals_clock,
      strings = interned_strings,
      initString = string_init,
      openUpvalues = [],
      heap = [0x5000 \<mapsto> OBJ_NATIVE clockNative, 0x6000 \<mapsto> OBJ_FUNCTION 0 0 None,
              0x7000 \<mapsto> OBJ_CLOSURE 0x6000 []],
      stderr = []\<rparr>"

text \<open>
  A class object at \<open>0xA000\<close> with the given method table, and the machine about to call it:
  the class and \<open>args\<close> are on the stack above the script's closure. The function at
  \<open>0x8000\<close> takes one parameter; the closure at \<open>0x9000\<close> wraps it.
\<close>

definition string_Point :: ObjString where
  "string_Point = \<lparr>obj_ref = 0xB000, chars = ''Point'', hash = hashString ''Point''\<rparr>"

definition vm_class :: "Table \<Rightarrow> Value list \<Rightarrow> VM" where
  "vm_class methods args =
     (vm_script (OBJ_VAL 0xA000 # args))
       \<lparr>heap := [0x5000 \<mapsto> OBJ_NATIVE clockNative, 0x6000 \<mapsto> OBJ_FUNCTION 0 0 None,
                 0x7000 \<mapsto> OBJ_CLOSURE 0x6000 [],
                 0x8000 \<mapsto> OBJ_FUNCTION 1 0 (Some string_init),
                 0x9000 \<mapsto> OBJ_CLOSURE 0x8000 [],
                 0xA000 \<mapsto> OBJ_CLASS string_Point methods]\<rparr>"

definition methods_init :: Table where
  "methods_init = \<lparr>count = 1, capacity = 8,
     entries = (replicate 8 empty_entry)[3 := \<lparr>key = Some string_init, val = OBJ_VAL 0x9000\<rparr>]\<rparr>"

text \<open>
  The state in which \<^verbatim>\<open>callValue\<close> continues after it has replaced the callee slot of a class
  call by the new instance at the address \<open>fresh\<close>.
\<close>

definition with_instance :: "64 word \<Rightarrow> VM \<Rightarrow> Value \<Rightarrow> nat \<Rightarrow> VM" where
  "with_instance fresh vm callee argCount =
     vm\<lparr>heap := (heap vm)(fresh \<mapsto> OBJ_INSTANCE (AS_OBJ callee) initTable),
        stack := (stack vm)[length (stack vm) - argCount - 1 := OBJ_VAL fresh]\<rparr>"

text \<open>
  The machine with three temporaries and two open upvalues: the head of the list points at
  slot 3, the next upvalue at slot 1.
\<close>

definition vm_upvalues :: VM where
  "vm_upvalues =
     (vm_script [NIL_VAL, TRUE_VAL, FALSE_VAL])
       \<lparr>openUpvalues := [0xD000, 0xC000],
        heap := [0x5000 \<mapsto> OBJ_NATIVE clockNative, 0x6000 \<mapsto> OBJ_FUNCTION 0 0 None,
                 0x7000 \<mapsto> OBJ_CLOSURE 0x6000 [],
                 0xC000 \<mapsto> OBJ_UPVALUE (StackSlot 1) NIL_VAL,
                 0xD000 \<mapsto> OBJ_UPVALUE (StackSlot 3) NIL_VAL]\<rparr>"

text \<open>
  The globals while the script \<^verbatim>\<open>var a = 1; var a = 2;\<close> runs, after the first declaration:
  \<open>clock\<close> and \<open>a\<close>; and the machine about to execute the second \<^verbatim>\<open>OP_DEFINE_GLOBAL\<close>, with
  the number 2 on top of the stack.
\<close>

definition number_two :: double where
  "number_two = 0x4000000000000000"

definition globals_clock_a :: "Value \<Rightarrow> Table" where
  "globals_clock_a v = \<lparr>count = 2, capacity = 8,
     entries = (replicate 8 empty_entry)
       [5 := \<lparr>key = Some string_clock, val = OBJ_VAL 0x5000\<rparr>,
        4 := \<lparr>key = Some string_a, val = v\<rparr>]\<rparr>"

definition vm_redefine :: VM where
  "vm_redefine = (vm_script [NUMBER_VAL number_two])\<lparr>globals := globals_clock_a (NUMBER_VAL number_one)\<rparr>"

section \<open>The compiler (chunk.h, chunk.c, compiler.c)\<close>

text \<open>
  The part of the single-pass compiler that reads the parameter list of a function and the
  argument list of a call. \<^verbatim>\<open>OpCode\<close> is the enumeration of chunk.h, in its order; a byte of a
  chunk holds the position of the instruction in it.
\<close>

datatype OpCode =
    OP_CONSTANT | OP_NIL | OP_TRUE | OP_FALSE | OP_POP
  | OP_GET_LOCAL | OP_SET_LOCAL | OP_GET_GLOBAL | OP_DEFINE_GLOBAL | OP_SET_GLOBAL
  | OP_GET_UPVALUE | OP_SET_UPVALUE | OP_GET_PROPERTY | OP_SET_PROPERTY | OP_GET_SUPER
  | OP_EQUAL | OP_GREATER | OP_LESS | OP_ADD | OP_SUBTRACT | OP_MULTIPLY | OP_DIVIDE
  | OP_NOT | OP_NEGATE | OP_PRINT | OP_JUMP | OP_JUMP_IF_FALSE | OP_LOOP
  | OP_CALL | OP_INVOKE | OP_SUPER_INVOKE | OP_CLOSURE | OP_CLOSE_UPVALUE | OP_RETURN
  | OP_CLASS | OP_INHERIT | OP_METHOD

fun opcode :: "OpCode \<Rightarrow> 8 word" where
  "opcode OP_CONSTANT = 0"
| "opcode OP_NIL = 1"
| "opcode OP_TRUE = 2"
| "opcode OP_FALSE = 3"
| "opcode OP_POP = 4"
| "opcode OP_GET_LOCAL = 5"
| "opcode OP_SET_LOCAL = 6"
| "opcode OP_GET_GLOBAL = 7"
| "opcode OP_DEFINE_GLOBAL = 8"
| "opcode OP_SET_GLOBAL = 9"
| "opcode OP_GET_UPVALUE = 10"
| "opcode OP_SET_UPVALUE = 11"
| "opcode OP_GET_PROPERTY = 12"
| "opcode OP_SET_PROPERTY = 13"
| "opcode OP_GET_SUPER = 14"
| "opcode OP_EQUAL = 15"
| "opcode OP_GREATER = 16"
| "opcode OP_LESS = 17"
| "opcode OP_ADD = 18"
| "opcode OP_SUBTRACT = 19"
| "opcode OP_MULTIPLY = 20"
| "opcode OP_DIVIDE = 21"
| "opcode OP_NOT = 22"
| "opcode OP_NEGATE = 23"
| "opcode OP_PRINT = 24"
| "opcode OP_JUMP = 25"
| "opcode OP_JUMP_IF_FALSE = 26"
| "opcode OP_LOOP = 27"
| "opcode OP_CALL = 28"
| "opcode OP_INVOKE = 29"
| "opcode OP_SUPER_INVOKE = 30"
| "opcode OP_CLOSURE = 31"
| "opcode OP_CLOSE_UPVALUE = 32"
| "opcode OP_RETURN = 33"
| "opcode OP_CLASS = 34"
| "opcode OP_INHERIT = 35"
| "opcode OP_METHOD = 36"

text \<open>
  A \<^verbatim>\<open>Chunk\<close>: the arrays \<^verbatim>\<open>code\<close> and \<^verbatim>\<open>lines\<close> up to \<^verbatim>\<open>count\<close>, and the constants. The
  capacities and the growth of the arrays are left to the allocator. \<^verbatim>\<open>addConstant\<close> returns
  the index of the new constant; the push and pop around it protect the value from the
  collector and are not modelled.
\<close>

record Chunk =
  code :: "8 word list"
  lines :: "int list"
  constants :: "Value list"

definition initChunk :: Chunk where
  "initChunk = \<lparr>code = [], lines = [], constants = []\<rparr>"

definition writeChunk :: "Chunk \<Rightarrow> 8 word \<Rightarrow> int \<Rightarrow> Chunk" where
  "writeChunk c byte ln = c\<lparr>code := code c @ [byte], lines := lines c @ [ln]\<rparr>"

definition addConstant :: "Chunk \<Rightarrow> Value \<Rightarrow> Chunk \<times> int" where
  "addConstant c v = (c\<lparr>constants := constants c @ [v]\<rparr>, int (length (constants c)))"

text \<open>
  An \<^verbatim>\<open>ObjFunction\<close> as the compiler fills it. Its name is an interned string, of which the
  model keeps the characters.
\<close>

record ObjFunction =
  arity :: int
  upvalueCount :: int
  chunk :: Chunk
  function_name :: "string option"

definition newFunction :: ObjFunction where
  "newFunction = \<lparr>arity = 0, upvalueCount = 0, chunk = initChunk, function_name = None\<rparr>"

text \<open>
  \<^verbatim>\<open>Local\<close>, \<^verbatim>\<open>Upvalue\<close>, \<^verbatim>\<open>FunctionType\<close> and \<^verbatim>\<open>Compiler\<close>. The name of a local is a token
  of which only the characters are read. The array \<^verbatim>\<open>locals\<close> with \<^verbatim>\<open>localCount\<close> is a list,
  and so are the upvalues. The function that \<^verbatim>\<open>compiler->function\<close> points to is kept in
  the record until the compiler ends; the field is \<open>comp_function\<close>, and \<^verbatim>\<open>type\<close> is
  \<open>function_type\<close>. The pointer \<^verbatim>\<open>enclosing\<close> is replaced by a list in the state below.
\<close>

record Local =
  local_name :: string
  depth :: int
  isCaptured :: bool

record Upvalue =
  upvalue_index :: "8 word"
  isLocal :: bool

datatype FunctionType = TYPE_FUNCTION | TYPE_INITIALIZER | TYPE_METHOD | TYPE_SCRIPT

record Compiler =
  comp_function :: ObjFunction
  function_type :: FunctionType
  locals :: "Local list"
  upvalues :: "Upvalue list"
  scopeDepth :: int

definition UINT8_COUNT :: int where
  "UINT8_COUNT = 256"

definition UINT8_MAX :: int where
  "UINT8_MAX = 255"

text \<open>
  The state of a compilation: the global \<^verbatim>\<open>parser\<close>, the global pointer \<^verbatim>\<open>current\<close> with the
  chain of enclosing compilers (innermost first), the lines written to the error stream,
  and the function objects that finished compilers have left on the heap. The scanner
  is represented by what it returns: \<open>tokens\<close> are the results of the coming calls of
  \<^verbatim>\<open>scanToken\<close>, and after them it returns the end-of-file token of the line \<open>eof_line\<close>
  again and again. A line on the error stream is the line number, the text about the
  place and the message.
\<close>

record Compilation =
  tokens :: "Token list"
  eof_line :: int
  parser_current :: Token
  parser_previous :: Token
  hadError :: bool
  panicMode :: bool
  compile_stderr :: "(int \<times> string \<times> string) list"
  current_compiler :: Compiler
  enclosing :: "Compiler list"
  function_objects :: "64 word \<rightharpoonup> ObjFunction"

definition currentChunk :: "Compilation \<Rightarrow> Chunk" where
  "currentChunk st = chunk (comp_function (current_compiler st))"

definition set_currentChunk :: "Chunk \<Rightarrow> Compilation \<Rightarrow> Compilation" where
  "set_currentChunk c st =
     st\<lparr>current_compiler :=
          (current_compiler st)\<lparr>comp_function :=
             (comp_function (current_compiler st))\<lparr>chunk := c\<rparr>\<rparr>\<rparr>"

subsection \<open>Errors and tokens\<close>

definition errorAt :: "Token \<Rightarrow> string \<Rightarrow> Compilation \<Rightarrow> Compilation" where
  "errorAt token message st =
     (if panicMode st then st
      else st\<lparr>panicMode := True,
              compile_stderr := compile_stderr st @
                [(token_line token,
                  (if type token = TOKEN_EOF then '' at end''
                   else if type token = TOKEN_ERROR then ''''
                   else '' at '' @ [CHR 0x27] @ lexeme token @ [CHR 0x27]),
                  message)],
              hadError := True\<rparr>)"

definition error :: "string \<Rightarrow> Compilation \<Rightarrow> Compilation" where
  "error message st = errorAt (parser_previous st) message st"

definition errorAtCurrent :: "string \<Rightarrow> Compilation \<Rightarrow> Compilation" where
  "errorAtCurrent message st = errorAt (parser_current st) message st"

text \<open>
  \<^verbatim>\<open>advance\<close>, \<^verbatim>\<open>check\<close>, \<^verbatim>\<open>consume\<close> and \<^verbatim>\<open>match\<close> of compiler.c. The scanner has functions
  called \<^verbatim>\<open>advance\<close> and \<^verbatim>\<open>match\<close> as well, so those of the compiler are \<open>compiler_advance\<close>
  and \<open>compiler_match\<close>. The loop of \<^verbatim>\<open>advance\<close> reports every error token and stops at the
  first other token; the message of an error token is its lexeme.
\<close>

fun advance_loop :: "Token list \<Rightarrow> Compilation \<Rightarrow> Compilation" where
  "advance_loop [] st =
     st\<lparr>tokens := [],
        parser_current := \<lparr>type = TOKEN_EOF, lexeme = [], token_line = eof_line st\<rparr>\<rparr>"
| "advance_loop (t # ts) st =
     (if type t \<noteq> TOKEN_ERROR then st\<lparr>tokens := ts, parser_current := t\<rparr>
      else advance_loop ts (errorAtCurrent (lexeme t) (st\<lparr>tokens := ts, parser_current := t\<rparr>)))"

definition compiler_advance :: "Compilation \<Rightarrow> Compilation" where
  "compiler_advance st = advance_loop (tokens st) (st\<lparr>parser_previous := parser_current st\<rparr>)"

definition check :: "TokenType \<Rightarrow> Compilation \<Rightarrow> bool" where
  "check ty st = (type (parser_current st) = ty)"

definition consume :: "TokenType \<Rightarrow> string \<Rightarrow> Compilation \<Rightarrow> Compilation" where
  "consume ty message st =
     (if check ty st then compiler_advance st else errorAtCurrent message st)"

definition compiler_match :: "TokenType \<Rightarrow> Compilation \<Rightarrow> bool \<times> Compilation" where
  "compiler_match ty st = (if \<not> check ty st then (False, st) else (True, compiler_advance st))"

subsection \<open>Emitting code\<close>

definition emitByte :: "8 word \<Rightarrow> Compilation \<Rightarrow> Compilation" where
  "emitByte byte st =
     set_currentChunk (writeChunk (currentChunk st) byte (token_line (parser_previous st))) st"

definition emitBytes :: "8 word \<Rightarrow> 8 word \<Rightarrow> Compilation \<Rightarrow> Compilation" where
  "emitBytes byte1 byte2 st = emitByte byte2 (emitByte byte1 st)"

definition emitReturn :: "Compilation \<Rightarrow> Compilation" where
  "emitReturn st =
     emitByte (opcode OP_RETURN)
       (if function_type (current_compiler st) = TYPE_INITIALIZER
        then emitBytes (opcode OP_GET_LOCAL) 0 st
        else emitByte (opcode OP_NIL) st)"

definition makeConstant :: "Value \<Rightarrow> Compilation \<Rightarrow> 8 word \<times> Compilation" where
  "makeConstant v st =
     (case addConstant (currentChunk st) v of
        (c, constant) \<Rightarrow>
          (if constant > UINT8_MAX
           then (0, error ''Too many constants in one chunk.'' (set_currentChunk c st))
           else (word_of_int constant, set_currentChunk c st)))"

subsection \<open>Compilers and scopes\<close>

text \<open>
  \<^verbatim>\<open>initCompiler\<close> makes the new compiler the current one and claims slot 0 of its locals.
  \<^verbatim>\<open>endCompiler\<close> returns the compiler that ends (the source returns its function; the caller
  also reads the upvalues of the compiler, which is a variable of its own) and goes back to
  the enclosing one. Ending the outermost compiler leaves \<^verbatim>\<open>current\<close> null; the state has no
  such value, and the result is \<open>None\<close>.
\<close>

definition initCompiler :: "FunctionType \<Rightarrow> Compilation \<Rightarrow> Compilation" where
  "initCompiler ty st =
     st\<lparr>enclosing := current_compiler st # enclosing st,
        current_compiler :=
          \<lparr>comp_function =
             (if ty \<noteq> TYPE_SCRIPT
              then newFunction\<lparr>function_name := Some (lexeme (parser_previous st))\<rparr>
              else newFunction),
           function_type = ty,
           locals = [\<lparr>local_name = (if ty \<noteq> TYPE_FUNCTION then ''this'' else []),
                      depth = 0, isCaptured = False\<rparr>],
           upvalues = [],
           scopeDepth = 0\<rparr>\<rparr>"

definition endCompiler :: "Compilation \<Rightarrow> (Compiler \<times> Compilation) option" where
  "endCompiler st =
     (let st1 = emitReturn st
      in case enclosing st1 of
           [] \<Rightarrow> None
         | c # cs \<Rightarrow> Some (current_compiler st1, st1\<lparr>current_compiler := c, enclosing := cs\<rparr>))"

definition beginScope :: "Compilation \<Rightarrow> Compilation" where
  "beginScope st =
     st\<lparr>current_compiler :=
          (current_compiler st)\<lparr>scopeDepth := scopeDepth (current_compiler st) + 1\<rparr>\<rparr>"

subsection \<open>Variables\<close>

text \<open>
  \<^verbatim>\<open>copyString\<close> interns the characters and returns the string object; \<open>string_address\<close>
  stands for the address of that object, which no property below depends on.
\<close>

definition identifierConstant ::
  "(string \<Rightarrow> 64 word) \<Rightarrow> Token \<Rightarrow> Compilation \<Rightarrow> 8 word \<times> Compilation" where
  "identifierConstant string_address t st = makeConstant (OBJ_VAL (string_address (lexeme t))) st"

definition identifiersEqual :: "string \<Rightarrow> string \<Rightarrow> bool" where
  "identifiersEqual a b = (if length a \<noteq> length b then False else a = b)"

definition addLocal :: "Token \<Rightarrow> Compilation \<Rightarrow> Compilation" where
  "addLocal t st =
     (if int (length (locals (current_compiler st))) = UINT8_COUNT
      then error ''Too many local variables in function.'' st
      else st\<lparr>current_compiler :=
                (current_compiler st)\<lparr>locals := locals (current_compiler st) @
                   [\<lparr>local_name = lexeme t, depth = - 1, isCaptured = False\<rparr>]\<rparr>\<rparr>)"

text \<open>
  The loop of \<^verbatim>\<open>declareVariable\<close> walks the locals from the last one down; the list it
  gets here is the reversed list of locals.
\<close>

fun declareVariable_loop :: "Local list \<Rightarrow> Compilation \<Rightarrow> Compilation" where
  "declareVariable_loop [] st = st"
| "declareVariable_loop (l # ls) st =
     (if depth l \<noteq> - 1 \<and> depth l < scopeDepth (current_compiler st) then st
      else declareVariable_loop ls
             (if identifiersEqual (lexeme (parser_previous st)) (local_name l)
              then error ''Already a variable with this name in this scope.'' st
              else st))"

definition declareVariable :: "Compilation \<Rightarrow> Compilation" where
  "declareVariable st =
     (if scopeDepth (current_compiler st) = 0 then st
      else addLocal (parser_previous st)
             (declareVariable_loop (rev (locals (current_compiler st))) st))"

definition parseVariable ::
  "(string \<Rightarrow> 64 word) \<Rightarrow> string \<Rightarrow> Compilation \<Rightarrow> 8 word \<times> Compilation" where
  "parseVariable string_address errorMessage st =
     (let st1 = declareVariable (consume TOKEN_IDENTIFIER errorMessage st)
      in if scopeDepth (current_compiler st1) > 0 then (0, st1)
         else identifierConstant string_address (parser_previous st1) st1)"

text \<open>
  \<^verbatim>\<open>markInitialized\<close> writes to \<^verbatim>\<open>locals[localCount - 1]\<close>; with no local that is a write in
  front of the array, which has no defined result (\<open>None\<close>).
\<close>

definition markInitialized :: "Compilation \<Rightarrow> Compilation option" where
  "markInitialized st =
     (let c = current_compiler st
      in if scopeDepth c = 0 then Some st
         else if locals c = [] then None
         else Some (st\<lparr>current_compiler :=
                 c\<lparr>locals := (locals c)[length (locals c) - 1 :=
                      (locals c ! (length (locals c) - 1))\<lparr>depth := scopeDepth c\<rparr>]\<rparr>\<rparr>))"

definition defineVariable :: "8 word \<Rightarrow> Compilation \<Rightarrow> Compilation option" where
  "defineVariable global st =
     (if scopeDepth (current_compiler st) > 0 then markInitialized st
      else Some (emitBytes (opcode OP_DEFINE_GLOBAL) global st))"

subsection \<open>Expressions\<close>

text \<open>
  The table \<^verbatim>\<open>rules\<close>. A \<^verbatim>\<open>ParseFn\<close> is a pointer to one of the parse functions, here a name
  for it. The second field of a rule is the function for a token that stands after its
  left operand.
\<close>

datatype Precedence =
    PREC_NONE | PREC_ASSIGNMENT | PREC_OR | PREC_AND | PREC_EQUALITY | PREC_COMPARISON
  | PREC_TERM | PREC_FACTOR | PREC_UNARY | PREC_CALL | PREC_PRIMARY

fun precedence_rank :: "Precedence \<Rightarrow> nat" where
  "precedence_rank PREC_NONE = 0"
| "precedence_rank PREC_ASSIGNMENT = 1"
| "precedence_rank PREC_OR = 2"
| "precedence_rank PREC_AND = 3"
| "precedence_rank PREC_EQUALITY = 4"
| "precedence_rank PREC_COMPARISON = 5"
| "precedence_rank PREC_TERM = 6"
| "precedence_rank PREC_FACTOR = 7"
| "precedence_rank PREC_UNARY = 8"
| "precedence_rank PREC_CALL = 9"
| "precedence_rank PREC_PRIMARY = 10"

datatype ParseFn =
    Fn_grouping | Fn_call | Fn_dot | Fn_unary | Fn_binary | Fn_variable | Fn_string
  | Fn_number | Fn_and | Fn_or | Fn_literal | Fn_super | Fn_this

record ParseRule =
  prefix_fn :: "ParseFn option"
  operator_fn :: "ParseFn option"
  precedence :: Precedence

fun getRule :: "TokenType \<Rightarrow> ParseRule" where
  "getRule TOKEN_LEFT_PAREN =
     \<lparr>prefix_fn = Some Fn_grouping, operator_fn = Some Fn_call, precedence = PREC_CALL\<rparr>"
| "getRule TOKEN_RIGHT_PAREN = \<lparr>prefix_fn = None, operator_fn = None, precedence = PREC_NONE\<rparr>"
| "getRule TOKEN_LEFT_BRACE = \<lparr>prefix_fn = None, operator_fn = None, precedence = PREC_NONE\<rparr>"
| "getRule TOKEN_RIGHT_BRACE = \<lparr>prefix_fn = None, operator_fn = None, precedence = PREC_NONE\<rparr>"
| "getRule TOKEN_COMMA = \<lparr>prefix_fn = None, operator_fn = None, precedence = PREC_NONE\<rparr>"
| "getRule TOKEN_DOT = \<lparr>prefix_fn = None, operator_fn = Some Fn_dot, precedence = PREC_CALL\<rparr>"
| "getRule TOKEN_MINUS =
     \<lparr>prefix_fn = Some Fn_unary, operator_fn = Some Fn_binary, precedence = PREC_TERM\<rparr>"
| "getRule TOKEN_PLUS = \<lparr>prefix_fn = None, operator_fn = Some Fn_binary, precedence = PREC_TERM\<rparr>"
| "getRule TOKEN_SEMICOLON = \<lparr>prefix_fn = None, operator_fn = None, precedence = PREC_NONE\<rparr>"
| "getRule TOKEN_SLASH =
     \<lparr>prefix_fn = None, operator_fn = Some Fn_binary, precedence = PREC_FACTOR\<rparr>"
| "getRule TOKEN_STAR =
     \<lparr>prefix_fn = None, operator_fn = Some Fn_binary, precedence = PREC_FACTOR\<rparr>"
| "getRule TOKEN_BANG = \<lparr>prefix_fn = Some Fn_unary, operator_fn = None, precedence = PREC_NONE\<rparr>"
| "getRule TOKEN_BANG_EQUAL =
     \<lparr>prefix_fn = None, operator_fn = Some Fn_binary, precedence = PREC_EQUALITY\<rparr>"
| "getRule TOKEN_EQUAL = \<lparr>prefix_fn = None, operator_fn = None, precedence = PREC_NONE\<rparr>"
| "getRule TOKEN_EQUAL_EQUAL =
     \<lparr>prefix_fn = None, operator_fn = Some Fn_binary, precedence = PREC_EQUALITY\<rparr>"
| "getRule TOKEN_GREATER =
     \<lparr>prefix_fn = None, operator_fn = Some Fn_binary, precedence = PREC_COMPARISON\<rparr>"
| "getRule TOKEN_GREATER_EQUAL =
     \<lparr>prefix_fn = None, operator_fn = Some Fn_binary, precedence = PREC_COMPARISON\<rparr>"
| "getRule TOKEN_LESS =
     \<lparr>prefix_fn = None, operator_fn = Some Fn_binary, precedence = PREC_COMPARISON\<rparr>"
| "getRule TOKEN_LESS_EQUAL =
     \<lparr>prefix_fn = None, operator_fn = Some Fn_binary, precedence = PREC_COMPARISON\<rparr>"
| "getRule TOKEN_IDENTIFIER =
     \<lparr>prefix_fn = Some Fn_variable, operator_fn = None, precedence = PREC_NONE\<rparr>"
| "getRule TOKEN_STRING = \<lparr>prefix_fn = Some Fn_string, operator_fn = None, precedence = PREC_NONE\<rparr>"
| "getRule TOKEN_NUMBER = \<lparr>prefix_fn = Some Fn_number, operator_fn = None, precedence = PREC_NONE\<rparr>"
| "getRule TOKEN_AND = \<lparr>prefix_fn = None, operator_fn = Some Fn_and, precedence = PREC_AND\<rparr>"
| "getRule TOKEN_CLASS = \<lparr>prefix_fn = None, operator_fn = None, precedence = PREC_NONE\<rparr>"
| "getRule TOKEN_ELSE = \<lparr>prefix_fn = None, operator_fn = None, precedence = PREC_NONE\<rparr>"
| "getRule TOKEN_FALSE = \<lparr>prefix_fn = Some Fn_literal, operator_fn = None, precedence = PREC_NONE\<rparr>"
| "getRule TOKEN_FOR = \<lparr>prefix_fn = None, operator_fn = None, precedence = PREC_NONE\<rparr>"
| "getRule TOKEN_FUN = \<lparr>prefix_fn = None, operator_fn = None, precedence = PREC_NONE\<rparr>"
| "getRule TOKEN_IF = \<lparr>prefix_fn = None, operator_fn = None, precedence = PREC_NONE\<rparr>"
| "getRule TOKEN_NIL = \<lparr>prefix_fn = Some Fn_literal, operator_fn = None, precedence = PREC_NONE\<rparr>"
| "getRule TOKEN_OR = \<lparr>prefix_fn = None, operator_fn = Some Fn_or, precedence = PREC_OR\<rparr>"
| "getRule TOKEN_PRINT = \<lparr>prefix_fn = None, operator_fn = None, precedence = PREC_NONE\<rparr>"
| "getRule TOKEN_RETURN = \<lparr>prefix_fn = None, operator_fn = None, precedence = PREC_NONE\<rparr>"
| "getRule TOKEN_SUPER = \<lparr>prefix_fn = Some Fn_super, operator_fn = None, precedence = PREC_NONE\<rparr>"
| "getRule TOKEN_THIS = \<lparr>prefix_fn = Some Fn_this, operator_fn = None, precedence = PREC_NONE\<rparr>"
| "getRule TOKEN_TRUE = \<lparr>prefix_fn = Some Fn_literal, operator_fn = None, precedence = PREC_NONE\<rparr>"
| "getRule TOKEN_VAR = \<lparr>prefix_fn = None, operator_fn = None, precedence = PREC_NONE\<rparr>"
| "getRule TOKEN_WHILE = \<lparr>prefix_fn = None, operator_fn = None, precedence = PREC_NONE\<rparr>"
| "getRule TOKEN_ERROR = \<lparr>prefix_fn = None, operator_fn = None, precedence = PREC_NONE\<rparr>"
| "getRule TOKEN_EOF = \<lparr>prefix_fn = None, operator_fn = None, precedence = PREC_NONE\<rparr>"

definition literal :: "Compilation \<Rightarrow> Compilation" where
  "literal st =
     (case type (parser_previous st) of
        TOKEN_FALSE \<Rightarrow> emitByte (opcode OP_FALSE) st
      | TOKEN_NIL \<Rightarrow> emitByte (opcode OP_NIL) st
      | TOKEN_TRUE \<Rightarrow> emitByte (opcode OP_TRUE) st
      | _ \<Rightarrow> st)"

text \<open>
  Of the parse functions this development covers \<^verbatim>\<open>literal\<close>; a call of another one has
  no result in the model (\<open>None\<close>). The same holds for the loop of \<^verbatim>\<open>parsePrecedence\<close> over
  the operators that follow the first operand: the model has a result when the loop does
  not start, that is when the token after the operand has a lower precedence.
\<close>

definition call_parse_fn :: "ParseFn \<Rightarrow> bool \<Rightarrow> Compilation \<Rightarrow> Compilation option" where
  "call_parse_fn fn canAssign st = (if fn = Fn_literal then Some (literal st) else None)"

definition parsePrecedence :: "Precedence \<Rightarrow> Compilation \<Rightarrow> Compilation option" where
  "parsePrecedence prec st =
     (let st1 = compiler_advance st
      in case prefix_fn (getRule (type (parser_previous st1))) of
           None \<Rightarrow> Some (error ''Expect expression.'' st1)
         | Some prefixRule \<Rightarrow>
             (let canAssign = (precedence_rank prec \<le> precedence_rank PREC_ASSIGNMENT)
              in case call_parse_fn prefixRule canAssign st1 of
                   None \<Rightarrow> None
                 | Some st2 \<Rightarrow>
                     (if precedence_rank prec
                           \<le> precedence_rank (precedence (getRule (type (parser_current st2))))
                      then None
                      else if canAssign then
                        (case compiler_match TOKEN_EQUAL st2 of
                           (True, st3) \<Rightarrow> Some (error ''Invalid assignment target.'' st3)
                         | (False, st3) \<Rightarrow> Some st3)
                      else Some st2)))"

definition expression :: "Compilation \<Rightarrow> Compilation option" where
  "expression st = parsePrecedence PREC_ASSIGNMENT st"

subsection \<open>Argument lists\<close>

text \<open>
  \<open>remaining\<close> bounds the tokens that a state has still to read: twice the number of tokens
  that the scanner has not returned yet, and one more when the current token is a comma.
  Both loops below read a token on every turn.
\<close>

definition remaining :: "Compilation \<Rightarrow> nat" where
  "remaining st = 2 * length (tokens st) + (if type (parser_current st) = TOKEN_COMMA then 1 else 0)"

text \<open>
  The body of the loop of \<^verbatim>\<open>argumentList\<close>, with the counter \<^verbatim>\<open>argCount\<close>, a \<^verbatim>\<open>uint8_t\<close>;
  then the loop and the function.
\<close>

definition argument :: "8 word \<Rightarrow> Compilation \<Rightarrow> (8 word \<times> Compilation) option" where
  "argument argCount st =
     (case expression st of
        None \<Rightarrow> None
      | Some st1 \<Rightarrow>
          Some (argCount + 1,
                if argCount = 255 then error ''Can't have more than 255 arguments'' st1 else st1))"

text \<open>Reading a token does not increase \<open>remaining\<close>, and reading a comma decreases it.\<close>

lemma remaining_errorAt: "remaining (errorAt t m st) = remaining st"
  by (simp add: remaining_def errorAt_def)

lemma remaining_error: "remaining (error m st) = remaining st"
  by (simp add: error_def remaining_errorAt)

lemma remaining_advance_loop: "remaining (advance_loop ts st) \<le> 2 * length ts - 1"
proof (induction ts arbitrary: st)
  case Nil
  show ?case by (simp add: remaining_def)
next
  case (Cons t ts)
  show ?case
  proof (cases "type t = TOKEN_ERROR")
    case True
    have "remaining (advance_loop ts (errorAtCurrent (lexeme t) (st\<lparr>tokens := ts, parser_current := t\<rparr>)))
            \<le> 2 * length ts - 1"
      by (rule Cons.IH)
    with True show ?thesis
      by simp
  next
    case False
    then show ?thesis
      by (simp add: remaining_def)
  qed
qed

lemma remaining_advance: "remaining (compiler_advance st) \<le> 2 * length (tokens st) - 1"
  unfolding compiler_advance_def by (rule remaining_advance_loop)

lemma remaining_advance_le: "remaining (compiler_advance st) \<le> remaining st"
  using remaining_advance [of st] by (simp add: remaining_def)

lemma remaining_match:
  assumes "compiler_match ty st = (b, st1)"
  shows "remaining st1 \<le> remaining st"
  using assms remaining_advance_le [of st] by (auto simp: compiler_match_def split: if_splits)

lemma remaining_match_comma:
  assumes "compiler_match TOKEN_COMMA st = (True, st1)"
  shows "remaining st1 < remaining st"
proof -
  from assms have c: "type (parser_current st) = TOKEN_COMMA" and s: "st1 = compiler_advance st"
    by (auto simp: compiler_match_def check_def split: if_splits)
  from c have "remaining st = 2 * length (tokens st) + 1"
    by (simp add: remaining_def)
  with remaining_advance [of st] s show ?thesis
    by simp
qed

lemma remaining_emitByte: "remaining (emitByte b st) = remaining st"
  by (simp add: remaining_def emitByte_def set_currentChunk_def)

lemma remaining_expression:
  assumes "expression st = Some st1"
  shows "remaining st1 \<le> remaining st"
proof -
  let ?a = "compiler_advance st"
  have lit: "remaining (literal ?a) = remaining ?a"
    by (simp add: literal_def remaining_emitByte split: TokenType.splits)
  have eq: "\<And>b s. compiler_match TOKEN_EQUAL (literal ?a) = (b, s) \<Longrightarrow> remaining s \<le> remaining ?a"
    using remaining_match lit by metis
  from assms have "remaining st1 \<le> remaining ?a"
    by (auto simp: expression_def parsePrecedence_def Let_def call_parse_fn_def remaining_error lit
          dest: eq split: option.splits if_splits prod.splits bool.splits)
  with remaining_advance_le [of st] show ?thesis
    by simp
qed

lemma remaining_argument:
  assumes "argument argCount st = Some (n, st1)"
  shows "remaining st1 \<le> remaining st"
  using assms remaining_expression
  by (auto simp: argument_def remaining_error split: option.splits if_splits)

lemma argument_turn:
  assumes "argument argCount st = Some (n, st1)" and "(True, st2) = compiler_match TOKEN_COMMA st1"
  shows "remaining st2 < remaining st"
proof -
  have "remaining st1 \<le> remaining st"
    using assms(1) by (rule remaining_argument)
  moreover have "remaining st2 < remaining st1"
    using assms(2) remaining_match_comma by metis
  ultimately show ?thesis
    by simp
qed

function argumentList_loop :: "8 word \<Rightarrow> Compilation \<Rightarrow> (8 word \<times> Compilation) option" where
  "argumentList_loop argCount st =
     (case argument argCount st of
        None \<Rightarrow> None
      | Some (argCount1, st1) \<Rightarrow>
          (case compiler_match TOKEN_COMMA st1 of
             (True, st2) \<Rightarrow> argumentList_loop argCount1 st2
           | (False, st2) \<Rightarrow> Some (argCount1, st2)))"
  by pat_completeness auto

termination argumentList_loop
  by (relation "measure (\<lambda>(argCount, st). remaining st)") (auto intro: argument_turn)

definition argumentList :: "Compilation \<Rightarrow> (8 word \<times> Compilation) option" where
  "argumentList st =
     (if \<not> check TOKEN_RIGHT_PAREN st then
        (case argumentList_loop 0 st of
           None \<Rightarrow> None
         | Some (argCount, st1) \<Rightarrow>
             Some (argCount, consume TOKEN_RIGHT_PAREN ''Expect ')' after arguments.'' st1))
      else Some (0, consume TOKEN_RIGHT_PAREN ''Expect ')' after arguments.'' st))"

text \<open>\<^verbatim>\<open>call\<close>, the parse function of an opening parenthesis after an operand.\<close>

definition compiler_call :: "bool \<Rightarrow> Compilation \<Rightarrow> Compilation option" where
  "compiler_call canAssign st =
     (case argumentList st of
        None \<Rightarrow> None
      | Some (argCount, st1) \<Rightarrow> Some (emitBytes (opcode OP_CALL) argCount st1))"

subsection \<open>Function declarations\<close>

text \<open>
  The body of the loop over the parameters in \<^verbatim>\<open>function\<close>, and the loop. The counter
  \<^verbatim>\<open>arity\<close> is an \<^verbatim>\<open>int\<close>; it counts tokens of the source, whose length is an \<^verbatim>\<open>int\<close> as well,
  and is modelled without a bound.
\<close>

definition parameter :: "(string \<Rightarrow> 64 word) \<Rightarrow> Compilation \<Rightarrow> Compilation option" where
  "parameter string_address st =
     (let c = current_compiler st;
          st1 = st\<lparr>current_compiler :=
                   c\<lparr>comp_function := (comp_function c)\<lparr>arity := arity (comp_function c) + 1\<rparr>\<rparr>\<rparr>;
          st2 = (if arity (comp_function (current_compiler st1)) > 255
                 then errorAtCurrent ''Can't have more than 255 parameters.'' st1
                 else st1)
      in case parseVariable string_address ''Expect parameter name.'' st2 of
           (constant, st3) \<Rightarrow> defineVariable constant st3)"

lemma remaining_set_currentChunk: "remaining (set_currentChunk c st) = remaining st"
  by (simp add: remaining_def set_currentChunk_def)

lemma remaining_makeConstant:
  assumes "makeConstant v st = (b, st1)"
  shows "remaining st1 = remaining st"
  using assms
  by (auto simp: makeConstant_def addConstant_def remaining_error remaining_set_currentChunk
        split: if_splits)

lemma remaining_declareVariable_loop: "remaining (declareVariable_loop ls st) = remaining st"
  by (induction ls arbitrary: st) (simp_all add: remaining_error)

lemma remaining_declareVariable: "remaining (declareVariable st) = remaining st"
proof -
  have "\<And>t s. remaining (addLocal t s) = remaining s"
    by (simp add: addLocal_def remaining_error) (simp add: remaining_def)
  then show ?thesis
    by (simp add: declareVariable_def remaining_declareVariable_loop)
qed

lemma remaining_consume: "remaining (consume ty m st) \<le> remaining st"
  by (simp add: consume_def remaining_advance_le errorAtCurrent_def remaining_errorAt)

lemma remaining_parseVariable:
  assumes "parseVariable sa m st = (b, st1)"
  shows "remaining st1 \<le> remaining st"
proof -
  let ?d = "declareVariable (consume TOKEN_IDENTIFIER m st)"
  have d: "remaining ?d \<le> remaining st"
    by (simp add: remaining_declareVariable remaining_consume)
  from assms have "remaining st1 = remaining ?d"
    by (auto simp: parseVariable_def Let_def identifierConstant_def
          dest: remaining_makeConstant split: if_splits)
  with d show ?thesis
    by simp
qed

lemma remaining_defineVariable:
  assumes "defineVariable g st = Some st1"
  shows "remaining st1 = remaining st"
  using assms
  by (auto simp: defineVariable_def markInitialized_def Let_def emitBytes_def remaining_emitByte
        split: if_splits)
     (simp add: remaining_def)

lemma remaining_parameter:
  assumes "parameter sa st = Some st1"
  shows "remaining st1 \<le> remaining st"
proof -
  let ?c = "current_compiler st"
  let ?s1 = "st\<lparr>current_compiler :=
                   ?c\<lparr>comp_function := (comp_function ?c)\<lparr>arity := arity (comp_function ?c) + 1\<rparr>\<rparr>\<rparr>"
  let ?s2 = "if arity (comp_function (current_compiler ?s1)) > 255
                 then errorAtCurrent ''Can't have more than 255 parameters.'' ?s1
                 else ?s1"
  have r2: "remaining ?s2 = remaining st"
    by (simp add: errorAtCurrent_def remaining_errorAt) (simp add: remaining_def)
  obtain b st3 where p: "parseVariable sa ''Expect parameter name.'' ?s2 = (b, st3)"
    by (cases "parseVariable sa ''Expect parameter name.'' ?s2")
  from assms p have "defineVariable b st3 = Some st1"
    by (simp add: parameter_def Let_def)
  then have "remaining st1 = remaining st3"
    by (rule remaining_defineVariable)
  with remaining_parseVariable [OF p] r2 show ?thesis
    by simp
qed

lemma parameter_turn:
  assumes "parameter sa st = Some st1" and "(True, st2) = compiler_match TOKEN_COMMA st1"
  shows "remaining st2 < remaining st"
proof -
  have "remaining st1 \<le> remaining st"
    using assms(1) by (rule remaining_parameter)
  moreover have "remaining st2 < remaining st1"
    using assms(2) remaining_match_comma by metis
  ultimately show ?thesis
    by simp
qed

function function_parameters :: "(string \<Rightarrow> 64 word) \<Rightarrow> Compilation \<Rightarrow> Compilation option" where
  "function_parameters string_address st =
     (case parameter string_address st of
        None \<Rightarrow> None
      | Some st1 \<Rightarrow>
          (case compiler_match TOKEN_COMMA st1 of
             (True, st2) \<Rightarrow> function_parameters string_address st2
           | (False, st2) \<Rightarrow> Some st2))"
  by pat_completeness auto

termination function_parameters
  by (relation "measure (\<lambda>(string_address, st). remaining st)") (auto intro: parameter_turn)

text \<open>
  \<^verbatim>\<open>block\<close>. The declarations inside a block are not covered: the model has a result when
  the loop has nothing to read, as in the block \<^verbatim>\<open>{}\<close>.
\<close>

definition block :: "Compilation \<Rightarrow> Compilation option" where
  "block st =
     (if \<not> check TOKEN_RIGHT_BRACE st \<and> \<not> check TOKEN_EOF st then None
      else Some (consume TOKEN_RIGHT_BRACE ''Expect '}' after block.'' st))"

text \<open>
  \<^verbatim>\<open>function\<close>, here \<open>compiler_function\<close>. \<open>fresh\<close> is the address of the function object
  that \<^verbatim>\<open>newFunction\<close> allocates in \<^verbatim>\<open>initCompiler\<close>; the object is entered in \<open>function_objects\<close> when
  its compiler ends.
\<close>

definition compiler_function ::
  "64 word \<Rightarrow> (string \<Rightarrow> 64 word) \<Rightarrow> FunctionType \<Rightarrow> Compilation \<Rightarrow> Compilation option" where
  "compiler_function fresh string_address ty st =
     (let st1 = beginScope (initCompiler ty st);
          st2 = consume TOKEN_LEFT_PAREN ''Expect '(' after function name.'' st1
      in case (if \<not> check TOKEN_RIGHT_PAREN st2 then function_parameters string_address st2
               else Some st2) of
           None \<Rightarrow> None
         | Some st3 \<Rightarrow>
             (let st4 = consume TOKEN_RIGHT_PAREN ''Expect ')' after parameters.'' st3;
                  st5 = consume TOKEN_LEFT_BRACE ''Expect '{' before function body.'' st4
              in case block st5 of
                   None \<Rightarrow> None
                 | Some st6 \<Rightarrow>
                     (case endCompiler st6 of
                        None \<Rightarrow> None
                      | Some (compiler, st7) \<Rightarrow>
                          (case makeConstant (OBJ_VAL fresh)
                                  (st7\<lparr>function_objects := (function_objects st7)(fresh \<mapsto> comp_function compiler)\<rparr>) of
                             (constant, st8) \<Rightarrow>
                               Some (foldl
                                 (\<lambda>s u. emitByte (upvalue_index u)
                                          (emitByte (if isLocal u then 1 else 0) s))
                                 (emitBytes (opcode OP_CLOSURE) constant st8)
                                 (take (nat (upvalueCount (comp_function compiler)))
                                    (upvalues compiler)))))))"

subsection \<open>Token lists for parameter and argument lists\<close>

text \<open>
  \<open>separated c xs\<close> is the list \<open>xs\<close> with the token \<open>c\<close> between its elements, and
  \<open>parameter_local p\<close> the local variable that a parameter with the name token \<open>p\<close> becomes.
  \<open>error_line t m\<close> is the line that \<^verbatim>\<open>errorAt\<close> prints for a token that is neither the end
  of the file nor an error token. \<open>literal_code\<close> is the byte that \<^verbatim>\<open>literal\<close> emits.
\<close>

fun separated :: "'a \<Rightarrow> 'a list \<Rightarrow> 'a list" where
  "separated c [] = []"
| "separated c [x] = [x]"
| "separated c (x # y # ys) = x # c # separated c (y # ys)"

definition parameter_local :: "Token \<Rightarrow> Local" where
  "parameter_local p = \<lparr>local_name = lexeme p, depth = 1, isCaptured = False\<rparr>"

definition error_line :: "Token \<Rightarrow> string \<Rightarrow> int \<times> string \<times> string" where
  "error_line t m = (token_line t, '' at '' @ [CHR 0x27] @ lexeme t @ [CHR 0x27], m)"

definition literal_code :: "Token \<Rightarrow> 8 word" where
  "literal_code t =
     (if type t = TOKEN_FALSE then opcode OP_FALSE
      else if type t = TOKEN_NIL then opcode OP_NIL
      else opcode OP_TRUE)"

subsection \<open>Sample compilations\<close>

text \<open>
  Tokens on line 1; \<open>parameter_names n\<close> are \<open>n\<close> identifiers \<open>p\<close>, \<open>pp\<close>, \<open>ppp\<close> and so on, and
  \<open>nil_arguments n\<close> are \<open>n\<close> tokens \<^verbatim>\<open>nil\<close>.
\<close>

definition tok :: "TokenType \<Rightarrow> string \<Rightarrow> Token" where
  "tok ty s = \<lparr>type = ty, lexeme = s, token_line = 1\<rparr>"

definition parameter_names :: "nat \<Rightarrow> Token list" where
  "parameter_names n = map (\<lambda>i. tok TOKEN_IDENTIFIER (replicate (Suc i) CHR ''p'')) [0..<n]"

definition nil_arguments :: "nat \<Rightarrow> Token list" where
  "nil_arguments n = replicate n (tok TOKEN_NIL ''nil'')"

text \<open>
  The compiler of a script, as \<^verbatim>\<open>initCompiler\<close> leaves it, with the given chunk; the state in
  which \<^verbatim>\<open>funDeclaration\<close> calls \<^verbatim>\<open>function\<close> for the source \<^verbatim>\<open>fun f(\<close>, the parameters \<open>ps\<close>
  and \<^verbatim>\<open>) {}\<close>; and the state in which \<^verbatim>\<open>call\<close> starts for the statement that consists of
  \<^verbatim>\<open>f(\<close>, the arguments \<open>as\<close> and \<^verbatim>\<open>);\<close>. The name \<open>f\<close> is constant 0 of the script.
\<close>

definition script_compiler :: "Chunk \<Rightarrow> Compiler" where
  "script_compiler c =
     \<lparr>comp_function = newFunction\<lparr>chunk := c\<rparr>, function_type = TYPE_SCRIPT,
      locals = [\<lparr>local_name = ''this'', depth = 0, isCaptured = False\<rparr>],
      upvalues = [], scopeDepth = 0\<rparr>"

definition declaration_state :: "Token list \<Rightarrow> Compilation" where
  "declaration_state ps =
     \<lparr>tokens = separated (tok TOKEN_COMMA '','') ps @
        [tok TOKEN_RIGHT_PAREN '')'', tok TOKEN_LEFT_BRACE ''{'', tok TOKEN_RIGHT_BRACE ''}''],
      eof_line = 1,
      parser_current = tok TOKEN_LEFT_PAREN ''('',
      parser_previous = tok TOKEN_IDENTIFIER ''f'',
      hadError = False, panicMode = False, compile_stderr = [],
      current_compiler = script_compiler (initChunk\<lparr>constants := [OBJ_VAL 0x1000]\<rparr>),
      enclosing = [],
      function_objects = Map.empty\<rparr>"

definition call_state :: "Token list \<Rightarrow> Compilation" where
  "call_state as =
     \<lparr>tokens = tl (separated (tok TOKEN_COMMA '','') as) @
        [tok TOKEN_RIGHT_PAREN '')'', tok TOKEN_SEMICOLON '';''],
      eof_line = 1,
      parser_current = hd as,
      parser_previous = tok TOKEN_LEFT_PAREN ''('',
      hadError = False, panicMode = False, compile_stderr = [],
      current_compiler = script_compiler
        \<lparr>code = [opcode OP_GET_GLOBAL, 0], lines = [1, 1], constants = [OBJ_VAL 0x1000]\<rparr>,
      enclosing = [],
      function_objects = Map.empty\<rparr>"

section \<open>Properties of values\<close>

subsection \<open>Facts about the encoding\<close>

lemma word_split_mask: "(a AND m) OR (a AND NOT m) = (a :: 'a::len word)"
  by (rule bit_eqI) (auto simp: bit_and_iff bit_or_iff bit_not_iff)

lemma IS_OBJ_eq_iff:
  assumes "IS_OBJ a" and "IS_OBJ b"
  shows "(a = b) = (AS_OBJ a = AS_OBJ b)"
  using assms word_split_mask [of a "QNAN OR SIGN_BIT"] word_split_mask [of b "QNAN OR SIGN_BIT"]
  unfolding IS_OBJ_def AS_OBJ_def
  by (simp add: or.commute) metis

lemma IS_OBJ_not_number:
  assumes "IS_OBJ a"
  shows "\<not> IS_NUMBER a"
proof -
  from assms have "a AND (QNAN OR SIGN_BIT) = QNAN OR SIGN_BIT"
    by (simp add: IS_OBJ_def)
  then have "(a AND (QNAN OR SIGN_BIT)) AND QNAN = (QNAN OR SIGN_BIT) AND QNAN"
    by simp
  moreover have "(QNAN OR SIGN_BIT) AND QNAN = QNAN"
    by (simp add: QNAN_def SIGN_BIT_def)
  ultimately have "a AND QNAN = QNAN"
    by (simp add: and.assoc)
  then show ?thesis
    by (simp add: IS_NUMBER_def)
qed

lemma IS_BOOL_cases:
  assumes "IS_BOOL v"
  shows "v = TRUE_VAL \<or> v = FALSE_VAL"
proof -
  from assms have or1: "v OR 1 = 0x7ffc000000000003"
    by (simp add: IS_BOOL_def TRUE_VAL_def QNAN_def TAG_TRUE_def)
  have "v AND NOT 1 = (v OR 1) AND NOT 1"
    by (rule bit_eqI) (auto simp: bit_and_iff bit_or_iff bit_not_iff bit_1_iff)
  with or1 have hi: "v AND NOT 1 = 0x7ffc000000000002"
    by simp
  have lo: "v AND 1 = 0 \<or> v AND 1 = 1"
    by (simp add: and_one_eq mod_2_eq_odd)
  have v: "v = (v AND 1) OR (v AND NOT 1)"
    by (rule word_split_mask [symmetric])
  from lo show ?thesis
  proof
    assume z: "v AND 1 = 0"
    have "v = 0 OR 0x7ffc000000000002"
      using v unfolding z hi .
    then show ?thesis
      by (simp add: FALSE_VAL_def QNAN_def TAG_FALSE_def)
  next
    assume z: "v AND 1 = 1"
    have "v = 1 OR 0x7ffc000000000002"
      using v unfolding z hi .
    then show ?thesis
      by (simp add: TRUE_VAL_def QNAN_def TAG_TRUE_def)
  qed
qed

lemma IS_BOOL_not_number: "IS_BOOL v \<Longrightarrow> \<not> IS_NUMBER v"
  by (auto dest!: IS_BOOL_cases
      simp: IS_NUMBER_def TRUE_VAL_def FALSE_VAL_def QNAN_def TAG_TRUE_def TAG_FALSE_def)

lemma IS_NIL_not_number: "IS_NIL v \<Longrightarrow> \<not> IS_NUMBER v"
  by (simp add: IS_NIL_def IS_NUMBER_def NIL_VAL_def QNAN_def TAG_NIL_def)

lemma valueType_number: "(valueType v = Some VAL_NUMBER) = IS_NUMBER v"
  by (auto simp: valueType_def dest: IS_BOOL_not_number IS_NIL_not_number)

subsection \<open>The equality contract\<close>

text \<open>
  C8. \<^verbatim>\<open>valuesEqual\<close> implements the equality contract of values: two values of different
  variants are never equal; nil equals nil; two booleans are equal exactly when they have
  the same truth value; two numbers are compared with the numeric equality of doubles, so
  that a NaN is unequal to itself and negative zero equals positive zero; two object
  values are equal exactly when they hold the same reference.
\<close>

theorem valuesEqual_contract:
  "(valueType a \<noteq> valueType b \<longrightarrow> \<not> valuesEqual a b)
   \<and> (IS_NIL a \<and> IS_NIL b \<longrightarrow> valuesEqual a b)
   \<and> (IS_BOOL a \<and> IS_BOOL b \<longrightarrow> valuesEqual a b = (AS_BOOL a = AS_BOOL b))
   \<and> (IS_NUMBER a \<and> IS_NUMBER b \<longrightarrow> valuesEqual a b = double_eq (AS_NUMBER a) (AS_NUMBER b))
   \<and> (IS_NUMBER a \<and> double_isnan (AS_NUMBER a) \<longrightarrow> \<not> valuesEqual a a)
   \<and> valuesEqual (NUMBER_VAL neg_zero) (NUMBER_VAL pos_zero)
   \<and> (IS_OBJ a \<and> IS_OBJ b \<longrightarrow> valuesEqual a b = (AS_OBJ a = AS_OBJ b))"
proof (intro conjI impI)
  assume diff: "valueType a \<noteq> valueType b"
  show "\<not> valuesEqual a b"
  proof (cases "IS_NUMBER a \<and> IS_NUMBER b")
    case True
    then have "valueType a = valueType b"
      using valueType_number [of a] valueType_number [of b] by simp
    with diff show ?thesis by simp
  next
    case False
    with diff show ?thesis by (auto simp: valuesEqual_def)
  qed
next
  assume n: "IS_NIL a \<and> IS_NIL b"
  then have "\<not> IS_NUMBER a"
    by (simp add: IS_NIL_not_number)
  with n show "valuesEqual a b"
    by (simp add: valuesEqual_def IS_NIL_def)
next
  assume b: "IS_BOOL a \<and> IS_BOOL b"
  then have "\<not> IS_NUMBER a"
    by (simp add: IS_BOOL_not_number)
  then have "valuesEqual a b = (a = b)"
    by (simp add: valuesEqual_def)
  moreover have "(a = b) = (AS_BOOL a = AS_BOOL b)"
    using b IS_BOOL_cases [of a] IS_BOOL_cases [of b]
    by (auto simp: AS_BOOL_def TRUE_VAL_def FALSE_VAL_def QNAN_def TAG_TRUE_def TAG_FALSE_def)
  ultimately show "valuesEqual a b = (AS_BOOL a = AS_BOOL b)"
    by simp
next
  assume "IS_NUMBER a \<and> IS_NUMBER b"
  then show "valuesEqual a b = double_eq (AS_NUMBER a) (AS_NUMBER b)"
    by (simp add: valuesEqual_def)
next
  assume "IS_NUMBER a \<and> double_isnan (AS_NUMBER a)"
  then show "\<not> valuesEqual a a"
    by (simp add: valuesEqual_def double_eq_def)
next
  show "valuesEqual (NUMBER_VAL neg_zero) (NUMBER_VAL pos_zero)"
    by (simp add: valuesEqual_def NUMBER_VAL_def numToValue_def AS_NUMBER_def valueToNum_def
        IS_NUMBER_def QNAN_def neg_zero_def pos_zero_def double_eq_def double_isnan_def
        double_iszero_def)
next
  assume o: "IS_OBJ a \<and> IS_OBJ b"
  then have "\<not> IS_NUMBER a"
    by (simp add: IS_OBJ_not_number)
  then have "valuesEqual a b = (a = b)"
    by (simp add: valuesEqual_def)
  with o show "valuesEqual a b = (AS_OBJ a = AS_OBJ b)"
    by (simp add: IS_OBJ_eq_iff)
qed

text \<open>
  The contract at concrete values: nil against true (different variants), nil against nil,
  true against false, the default NaN against itself, and two distinct object references.
\<close>

theorem valuesEqual_contract_witness:
  "\<not> valuesEqual NIL_VAL TRUE_VAL
   \<and> valuesEqual NIL_VAL NIL_VAL
   \<and> \<not> valuesEqual TRUE_VAL FALSE_VAL
   \<and> \<not> valuesEqual (NUMBER_VAL default_nan) (NUMBER_VAL default_nan)
   \<and> \<not> valuesEqual (OBJ_VAL 16) (OBJ_VAL 32)"
proof -
  have vt: "valueType NIL_VAL \<noteq> valueType TRUE_VAL"
    by (simp add: valueType_def IS_BOOL_def IS_NIL_def NIL_VAL_def TRUE_VAL_def QNAN_def
        TAG_NIL_def TAG_TRUE_def)
  have nil: "IS_NIL NIL_VAL \<and> IS_NIL NIL_VAL"
    by (simp add: IS_NIL_def)
  have bools: "IS_BOOL TRUE_VAL \<and> IS_BOOL FALSE_VAL"
    by (simp add: IS_BOOL_def TRUE_VAL_def FALSE_VAL_def QNAN_def TAG_TRUE_def TAG_FALSE_def)
  have as_bool: "AS_BOOL TRUE_VAL \<noteq> AS_BOOL FALSE_VAL"
    by (simp add: AS_BOOL_def TRUE_VAL_def FALSE_VAL_def QNAN_def TAG_TRUE_def TAG_FALSE_def)
  have nan: "IS_NUMBER (NUMBER_VAL default_nan) \<and> double_isnan (AS_NUMBER (NUMBER_VAL default_nan))"
    by (simp add: IS_NUMBER_def NUMBER_VAL_def numToValue_def AS_NUMBER_def valueToNum_def
        default_nan_def QNAN_def double_isnan_def)
  have objs: "IS_OBJ (OBJ_VAL 16) \<and> IS_OBJ (OBJ_VAL 32)"
    by (simp add: IS_OBJ_def OBJ_VAL_def QNAN_def SIGN_BIT_def)
  have as_obj: "AS_OBJ (OBJ_VAL 16) \<noteq> AS_OBJ (OBJ_VAL 32)"
    by (simp add: AS_OBJ_def OBJ_VAL_def QNAN_def SIGN_BIT_def)
  have c1: "\<not> valuesEqual NIL_VAL TRUE_VAL"
    using valuesEqual_contract [of NIL_VAL TRUE_VAL] vt by blast
  have c2: "valuesEqual NIL_VAL NIL_VAL"
    using valuesEqual_contract [of NIL_VAL NIL_VAL] nil by blast
  have c3: "\<not> valuesEqual TRUE_VAL FALSE_VAL"
    using valuesEqual_contract [of TRUE_VAL FALSE_VAL] bools as_bool by blast
  have c4: "\<not> valuesEqual (NUMBER_VAL default_nan) (NUMBER_VAL default_nan)"
    using valuesEqual_contract [of "NUMBER_VAL default_nan" "NUMBER_VAL default_nan"] nan
    by blast
  have c5: "\<not> valuesEqual (OBJ_VAL 16) (OBJ_VAL 32)"
    using valuesEqual_contract [of "OBJ_VAL 16" "OBJ_VAL 32"] objs as_obj by blast
  from c1 c2 c3 c4 c5 show ?thesis
    by simp
qed



section \<open>Properties of the hash table\<close>

subsection \<open>Deleting an entry\<close>

text \<open>
  C1. Setting the key \<open>a\<close> in an empty table and reading it back yields the value that was
  set. Deleting the key afterwards reports success, but the entry keeps its key and only
  its value becomes true: a following \<^verbatim>\<open>tableGet\<close> still finds the key (with the value true),
  and no entry of the table is a tombstone.
\<close>

theorem tableDelete_leaves_key:
  "tableSet initTable string_a (NUMBER_VAL number_one) = Some (True, table_a (NUMBER_VAL number_one))
   \<and> tableGet (table_a (NUMBER_VAL number_one)) string_a = Some (Some (NUMBER_VAL number_one))
   \<and> tableDelete (table_a (NUMBER_VAL number_one)) string_a = Some (True, table_a (BOOL_VAL True))
   \<and> tableGet (table_a (BOOL_VAL True)) string_a = Some (Some (BOOL_VAL True))
   \<and> key (entries (table_a (BOOL_VAL True)) ! 4) = Some string_a
   \<and> list_all (\<lambda>e. \<not> is_tombstone e) (entries (table_a (BOOL_VAL True)))"
  by code_simp

subsection \<open>Cleaning the intern table\<close>

text \<open>
  C3. The intern table that holds the single string \<open>a\<close> (interned with the value nil, as
  \<^verbatim>\<open>allocateString\<close> does), cleaned when no string is marked: \<^verbatim>\<open>tableRemoveWhite\<close> returns
  a table in which the entry of the unmarked string still carries its key.
\<close>

theorem tableRemoveWhite_keeps_unmarked:
  "tableSet initTable string_a NIL_VAL = Some (True, table_a NIL_VAL)
   \<and> tableRemoveWhite (\<lambda>s. False) (table_a NIL_VAL) = Some (table_a (BOOL_VAL True))
   \<and> key (entries (table_a (BOOL_VAL True)) ! 4) = Some string_a"
  by code_simp

subsection \<open>Lookup and insertion\<close>

text \<open>
  The index arithmetic of \<^verbatim>\<open>findEntry\<close>: for a capacity \<open>2 ^ m\<close> the mask \<^verbatim>\<open>capacity - 1\<close>
  reduces the index modulo the capacity, and the step to the following slot is the
  successor modulo the capacity.
\<close>

lemma mask_word: "(word_of_int (2 ^ m - 1) :: 32 word) = mask m"
  by (simp add: mask_eq_exp_minus_1)
lemma mask_idx: "unat ((w::32 word) AND word_of_int (2 ^ m - 1)) = unat w mod 2 ^ m"
proof -
  have "unat (w AND mask m) = unat (take_bit m w)"
    by (simp only: take_bit_eq_mask)
  also have "\<dots> = take_bit m (unat w)"
    by (rule unsigned_take_bit_eq)
  also have "\<dots> = unat w mod 2 ^ m"
    by (rule take_bit_eq_mod)
  finally have "unat (w AND mask m) = unat w mod 2 ^ m" .
  then show ?thesis
    by (simp only: mask_word)
qed
lemma next_idx: "m \<le> 30 \<Longrightarrow> unat (((w::32 word) + 1) AND word_of_int (2 ^ m - 1)) = (unat w + 1) mod 2 ^ m"
proof -
  assume m: "m \<le> 30"
  have "unat (w + 1) = (unat w + 1) mod 2 ^ 32"
    by (simp add: unat_word_ariths)
  moreover have "(2::nat) ^ m dvd 2 ^ 32"
    using m by (intro le_imp_power_dvd) simp
  ultimately show ?thesis
    by (simp only: mask_idx mod_mod_cancel)
qed

text \<open>
  The probe sequence: from the slot \<open>ix\<close>, past \<open>n\<close> slots that hold other keys, the loop
  returns the slot that holds the key, or the first empty slot.
\<close>

lemma probe_shift: "((a + 1) mod c + j) mod c = (a + Suc j) mod (c::nat)"
  by (simp add: mod_add_left_eq)

lemma findEntry_loop_hit:
  assumes m: "m \<le> 30" and len: "length es = 2 ^ m"
  shows "unat ix < 2 ^ m
    \<Longrightarrow> \<forall>j<n. \<exists>k'. key (es ! ((unat ix + j) mod 2 ^ m)) = Some k' \<and> k' \<noteq> k
    \<Longrightarrow> key (es ! ((unat ix + n) mod 2 ^ m)) = Some k
    \<Longrightarrow> findEntry_loop es (2 ^ m) k ix tomb = Some ((unat ix + n) mod 2 ^ m)"
proof (induction n arbitrary: ix)
  case 0
  then show ?case
    by (subst findEntry_loop.simps) (simp add: len)
next
  case (Suc n)
  let ?ix' = "(ix + 1) AND word_of_int (2 ^ m - 1)"
  have u: "unat ?ix' = (unat ix + 1) mod 2 ^ m"
    using m by (rule next_idx)
  from Suc.prems(2) have "\<exists>k'. key (es ! ((unat ix + 0) mod 2 ^ m)) = Some k' \<and> k' \<noteq> k"
    by blast
  with Suc.prems(1) obtain k' where here: "key (es ! unat ix) = Some k'" "k' \<noteq> k"
    by auto
  have lt: "unat ?ix' < 2 ^ m"
    unfolding u by simp
  have path: "\<forall>j<n. \<exists>k'. key (es ! ((unat ?ix' + j) mod 2 ^ m)) = Some k' \<and> k' \<noteq> k"
  proof (intro allI impI)
    fix j assume "j < n"
    then have "Suc j < Suc n" by simp
    with Suc.prems(2) have "\<exists>k'. key (es ! ((unat ix + Suc j) mod 2 ^ m)) = Some k' \<and> k' \<noteq> k"
      by blast
    then show "\<exists>k'. key (es ! ((unat ?ix' + j) mod 2 ^ m)) = Some k' \<and> k' \<noteq> k"
      unfolding u probe_shift .
  qed
  have hit: "key (es ! ((unat ?ix' + n) mod 2 ^ m)) = Some k"
    using Suc.prems(3) unfolding u probe_shift by simp
  have "findEntry_loop es (2 ^ m) k ?ix' tomb = Some ((unat ?ix' + n) mod 2 ^ m)"
    by (rule Suc.IH [OF lt path hit])
  then have rec: "findEntry_loop es (2 ^ m) k ?ix' tomb = Some ((unat ix + Suc n) mod 2 ^ m)"
    unfolding u probe_shift by simp
  show ?case
    using rec here Suc.prems(1) by (subst findEntry_loop.simps) (simp add: len)
qed

lemma findEntry_loop_miss:
  assumes m: "m \<le> 30" and len: "length es = 2 ^ m"
  shows "unat ix < 2 ^ m
    \<Longrightarrow> \<forall>j<n. \<exists>k'. key (es ! ((unat ix + j) mod 2 ^ m)) = Some k' \<and> k' \<noteq> k
    \<Longrightarrow> key (es ! ((unat ix + n) mod 2 ^ m)) = None
    \<Longrightarrow> val (es ! ((unat ix + n) mod 2 ^ m)) = NIL_VAL
    \<Longrightarrow> findEntry_loop es (2 ^ m) k ix None = Some ((unat ix + n) mod 2 ^ m)"
proof (induction n arbitrary: ix)
  case 0
  then show ?case
    by (subst findEntry_loop.simps) (simp add: len IS_NIL_def)
next
  case (Suc n)
  let ?ix' = "(ix + 1) AND word_of_int (2 ^ m - 1)"
  have u: "unat ?ix' = (unat ix + 1) mod 2 ^ m"
    using m by (rule next_idx)
  from Suc.prems(2) have "\<exists>k'. key (es ! ((unat ix + 0) mod 2 ^ m)) = Some k' \<and> k' \<noteq> k"
    by blast
  with Suc.prems(1) obtain k' where here: "key (es ! unat ix) = Some k'" "k' \<noteq> k"
    by auto
  have lt: "unat ?ix' < 2 ^ m"
    unfolding u by simp
  have path: "\<forall>j<n. \<exists>k'. key (es ! ((unat ?ix' + j) mod 2 ^ m)) = Some k' \<and> k' \<noteq> k"
  proof (intro allI impI)
    fix j assume "j < n"
    then have "Suc j < Suc n" by simp
    with Suc.prems(2) have "\<exists>k'. key (es ! ((unat ix + Suc j) mod 2 ^ m)) = Some k' \<and> k' \<noteq> k"
      by blast
    then show "\<exists>k'. key (es ! ((unat ?ix' + j) mod 2 ^ m)) = Some k' \<and> k' \<noteq> k"
      unfolding u probe_shift .
  qed
  have e1: "key (es ! ((unat ?ix' + n) mod 2 ^ m)) = None"
    using Suc.prems(3) unfolding u probe_shift by simp
  have e2: "val (es ! ((unat ?ix' + n) mod 2 ^ m)) = NIL_VAL"
    using Suc.prems(4) unfolding u probe_shift by simp
  have "findEntry_loop es (2 ^ m) k ?ix' None = Some ((unat ?ix' + n) mod 2 ^ m)"
    by (rule Suc.IH [OF lt path e1 e2])
  then have rec: "findEntry_loop es (2 ^ m) k ?ix' None = Some ((unat ix + Suc n) mod 2 ^ m)"
    unfolding u probe_shift by simp
  show ?case
    using rec here Suc.prems(1) by (subst findEntry_loop.simps) (simp add: len)
qed

text \<open>Lookup in a chained array, and what storing an entry does to one.\<close>

lemma probe_lt: "probe m k n < 2 ^ m"
  by (simp add: probe_def)

lemma probe_cover:
  assumes "e < 2 ^ m"
  shows "\<exists>n<2 ^ m. probe m k n = e"
proof -
  let ?c = "(2::nat) ^ m"
  let ?h = "unat (hash k) mod ?c"
  let ?n = "(e + ?c - ?h) mod ?c"
  have h: "?h < ?c" by simp
  have "(?h + ?n) mod ?c = (?h + (e + ?c - ?h)) mod ?c"
    by (simp add: mod_add_right_eq)
  also have "?h + (e + ?c - ?h) = e + ?c"
    using h by linarith
  also have "(e + ?c) mod ?c = e"
    using assms by simp
  finally have "probe m k ?n = e"
    by (simp add: probe_def)
  moreover have "?n < ?c" by simp
  ultimately show ?thesis by blast
qed

lemma findEntry_start:
  "findEntry es (2 ^ m) k = findEntry_loop es (2 ^ m) k (hash k AND word_of_int (2 ^ m - 1)) None"
  by (simp add: findEntry_def)

lemma findEntry_chained_hit:
  assumes m: "m \<le> 30" and ch: "chained m es" and j: "j < 2 ^ m" and kj: "key (es ! j) = Some k"
  shows "findEntry es (2 ^ m) k = Some j"
proof -
  let ?ix = "hash k AND word_of_int (2 ^ m - 1) :: 32 word"
  have u: "unat ?ix = unat (hash k) mod 2 ^ m"
    by (rule mask_idx)
  from ch have len: "length es = 2 ^ m"
    by (simp add: chained_def)
  from ch j kj obtain n where n: "n < 2 ^ m" "j = probe m k n"
    and path: "\<forall>q<n. \<exists>k'. key (es ! probe m k q) = Some k' \<and> k' \<noteq> k"
    unfolding chained_def by blast
  have lt: "unat ?ix < 2 ^ m"
    unfolding u by simp
  have p: "\<forall>q<n. \<exists>k'. key (es ! ((unat ?ix + q) mod 2 ^ m)) = Some k' \<and> k' \<noteq> k"
    using path unfolding u probe_def .
  have h: "key (es ! ((unat ?ix + n) mod 2 ^ m)) = Some k"
    using kj n(2) unfolding u probe_def by simp
  have "findEntry_loop es (2 ^ m) k ?ix None = Some ((unat ?ix + n) mod 2 ^ m)"
    by (rule findEntry_loop_hit [OF m len lt p h])
  then show ?thesis
    unfolding findEntry_start u using n(2) by (simp add: probe_def)
qed

lemma findEntry_chained_miss:
  assumes m: "m \<le> 30" and ch: "chained m es"
    and absent: "\<forall>j<2 ^ m. key (es ! j) \<noteq> Some k"
    and room: "\<exists>e<2 ^ m. key (es ! e) = None"
  shows "\<exists>n<2 ^ m. findEntry es (2 ^ m) k = Some (probe m k n)
           \<and> key (es ! probe m k n) = None
           \<and> (\<forall>q<n. \<exists>k'. key (es ! probe m k q) = Some k' \<and> k' \<noteq> k)"
proof -
  let ?ix = "hash k AND word_of_int (2 ^ m - 1) :: 32 word"
  have u: "unat ?ix = unat (hash k) mod 2 ^ m"
    by (rule mask_idx)
  from ch have len: "length es = 2 ^ m"
    by (simp add: chained_def)
  from room obtain e where e: "e < 2 ^ m" "key (es ! e) = None"
    by blast
  from probe_cover [OF e(1), of k] obtain n0 where n0: "n0 < 2 ^ m" "probe m k n0 = e"
    by blast
  define n where "n = (LEAST n. key (es ! probe m k n) = None)"
  have ex: "key (es ! probe m k n0) = None"
    using n0 e by simp
  have nn: "key (es ! probe m k n) = None"
    unfolding n_def using ex by (rule LeastI)
  have nle: "n \<le> n0"
    unfolding n_def using ex by (rule Least_le)
  have before: "\<forall>q<n. \<exists>k'. key (es ! probe m k q) = Some k' \<and> k' \<noteq> k"
  proof (intro allI impI)
    fix q assume "q < n"
    then have "key (es ! probe m k q) \<noteq> None"
      unfolding n_def by (rule not_less_Least)
    then obtain k' where k': "key (es ! probe m k q) = Some k'"
      by auto
    with absent probe_lt [of m k q] have "k' \<noteq> k"
      by auto
    with k' show "\<exists>k'. key (es ! probe m k q) = Some k' \<and> k' \<noteq> k"
      by blast
  qed
  have nlt: "n < 2 ^ m"
    using nle n0(1) by simp
  have nil: "val (es ! probe m k n) = NIL_VAL"
    using ch nn probe_lt [of m k n] unfolding chained_def by blast
  have lt: "unat ?ix < 2 ^ m"
    unfolding u by simp
  have p: "\<forall>q<n. \<exists>k'. key (es ! ((unat ?ix + q) mod 2 ^ m)) = Some k' \<and> k' \<noteq> k"
    using before unfolding u probe_def .
  have h1: "key (es ! ((unat ?ix + n) mod 2 ^ m)) = None"
    using nn unfolding u probe_def .
  have h2: "val (es ! ((unat ?ix + n) mod 2 ^ m)) = NIL_VAL"
    using nil unfolding u probe_def .
  have "findEntry_loop es (2 ^ m) k ?ix None = Some ((unat ?ix + n) mod 2 ^ m)"
    by (rule findEntry_loop_miss [OF m len lt p h1 h2])
  then have "findEntry es (2 ^ m) k = Some (probe m k n)"
    unfolding findEntry_start u probe_def .
  with nlt nn before show ?thesis
    by blast
qed

lemma chained_update_same:
  assumes ch: "chained m es" and j: "j < 2 ^ m" and kj: "key (es ! j) = Some k"
    and ke: "key e' = Some k"
  shows "chained m (es[j := e'])"
proof -
  from ch have len: "length es = 2 ^ m"
    by (simp add: chained_def)
  have keys: "key (es[j := e'] ! i) = key (es ! i)" if "i < 2 ^ m" for i
    using that len kj ke by (cases "i = j") simp_all
  have vals: "val (es[j := e'] ! i) = val (es ! i)" if "i < 2 ^ m" "key (es ! i) = None" for i
    using that len kj by (cases "i = j") simp_all
  show ?thesis
    unfolding chained_def
  proof (intro conjI allI impI)
    show "length (es[j := e']) = 2 ^ m"
      using len by simp
  next
    fix i assume i: "i < 2 ^ m" and "key (es[j := e'] ! i) = None"
    then have "key (es ! i) = None"
      by (simp add: keys)
    with ch i vals show "val (es[j := e'] ! i) = NIL_VAL"
      unfolding chained_def by simp
  next
    fix i k2 assume i: "i < 2 ^ m" and "key (es[j := e'] ! i) = Some k2"
    then have "key (es ! i) = Some k2"
      by (simp add: keys)
    with ch i obtain n where n: "n < 2 ^ m" "i = probe m k2 n"
      and path: "\<forall>q<n. \<exists>k'. key (es ! probe m k2 q) = Some k' \<and> k' \<noteq> k2"
      unfolding chained_def by blast
    have "\<forall>q<n. \<exists>k'. key (es[j := e'] ! probe m k2 q) = Some k' \<and> k' \<noteq> k2"
      using path by (simp add: keys probe_lt)
    with n show "\<exists>n<2 ^ m. i = probe m k2 n
        \<and> (\<forall>q<n. \<exists>k'. key (es[j := e'] ! probe m k2 q) = Some k' \<and> k' \<noteq> k2)"
      by blast
  qed
qed

lemma chained_update_new:
  assumes ch: "chained m es" and n: "n < 2 ^ m"
    and free: "key (es ! probe m k n) = None"
    and path: "\<forall>q<n. \<exists>k'. key (es ! probe m k q) = Some k' \<and> k' \<noteq> k"
    and ke: "key e' = Some k"
  shows "chained m (es[probe m k n := e'])"
proof -
  let ?p = "probe m k n"
  from ch have len: "length es = 2 ^ m"
    by (simp add: chained_def)
  have same: "es[?p := e'] ! i = es ! i" if "key (es ! i) \<noteq> None" for i
    using that free by (cases "i = ?p") auto
  have at: "es[?p := e'] ! ?p = e'"
    using len probe_lt [of m k n] by simp
  show ?thesis
    unfolding chained_def
  proof (intro conjI allI impI)
    show "length (es[?p := e']) = 2 ^ m"
      using len by simp
  next
    fix i assume i: "i < 2 ^ m" and none: "key (es[?p := e'] ! i) = None"
    have "i \<noteq> ?p"
      using none at ke by auto
    with none ch i show "val (es[?p := e'] ! i) = NIL_VAL"
      unfolding chained_def by simp
  next
    fix i k2 assume i: "i < 2 ^ m" and k2: "key (es[?p := e'] ! i) = Some k2"
    show "\<exists>n<2 ^ m. i = probe m k2 n
        \<and> (\<forall>q<n. \<exists>k'. key (es[?p := e'] ! probe m k2 q) = Some k' \<and> k' \<noteq> k2)"
    proof (cases "i = ?p")
      case True
      with k2 at ke have "k2 = k" by simp
      moreover have "\<forall>q<n. \<exists>k'. key (es[?p := e'] ! probe m k q) = Some k' \<and> k' \<noteq> k"
      proof (intro allI impI)
        fix q assume "q < n"
        with path obtain k' where k': "key (es ! probe m k q) = Some k'" "k' \<noteq> k"
          by blast
        then have "es[?p := e'] ! probe m k q = es ! probe m k q"
          by (intro same) simp
        with k' show "\<exists>k'. key (es[?p := e'] ! probe m k q) = Some k' \<and> k' \<noteq> k"
          by simp
      qed
      ultimately show ?thesis
        using n True by blast
    next
      case False
      with k2 have old: "key (es ! i) = Some k2"
        by simp
      with ch i obtain n2 where n2: "n2 < 2 ^ m" "i = probe m k2 n2"
        and path2: "\<forall>q<n2. \<exists>k'. key (es ! probe m k2 q) = Some k' \<and> k' \<noteq> k2"
        unfolding chained_def by blast
      have "\<forall>q<n2. \<exists>k'. key (es[?p := e'] ! probe m k2 q) = Some k' \<and> k' \<noteq> k2"
      proof (intro allI impI)
        fix q assume "q < n2"
        with path2 obtain k' where k': "key (es ! probe m k2 q) = Some k'" "k' \<noteq> k2"
          by blast
        then have "es[?p := e'] ! probe m k2 q = es ! probe m k2 q"
          by (intro same) simp
        with k' show "\<exists>k'. key (es[?p := e'] ! probe m k2 q) = Some k' \<and> k' \<noteq> k2"
          by simp
      qed
      with n2 show ?thesis
        by blast
    qed
  qed
qed

text \<open>
  The number of keys, and the second loop of \<^verbatim>\<open>adjustCapacity\<close>: it returns, the new array is
  chained, it holds every key of the old one, and the count is the number of keys.
\<close>

lemma length_filter_update_le:
  "length (filter P (xs[j := y])) \<le> length (filter P xs) + 1"
proof (induction xs arbitrary: j)
  case Nil
  then show ?case by simp
next
  case (Cons x xs)
  show ?case
  proof (cases j)
    case 0
    then show ?thesis by simp
  next
    case (Suc i)
    with Cons.IH [of i] show ?thesis by simp
  qed
qed

lemma length_filter_update_same:
  "j < length xs \<Longrightarrow> P (xs ! j) \<Longrightarrow> P y \<Longrightarrow> length (filter P (xs[j := y])) = length (filter P xs)"
proof (induction xs arbitrary: j)
  case Nil
  then show ?case by simp
next
  case (Cons x xs)
  show ?case
  proof (cases j)
    case 0
    with Cons.prems show ?thesis by simp
  next
    case (Suc i)
    with Cons.prems Cons.IH [of i] show ?thesis by simp
  qed
qed

lemma occupied_update_le: "occupied (es[j := e']) \<le> occupied es + 1"
  unfolding occupied_def by (rule length_filter_update_le)

lemma occupied_update_same:
  "j < length es \<Longrightarrow> key (es ! j) \<noteq> None \<Longrightarrow> key e' \<noteq> None
   \<Longrightarrow> occupied (es[j := e']) = occupied es"
  unfolding occupied_def by (rule length_filter_update_same)

lemma occupied_room:
  assumes "occupied es < length es"
  shows "\<exists>j<length es. key (es ! j) = None"
proof (rule ccontr)
  assume "\<not> (\<exists>j<length es. key (es ! j) = None)"
  then have "\<forall>e\<in>set es. key e \<noteq> None"
    by (auto simp: in_set_conv_nth)
  then have "filter (\<lambda>e. key e \<noteq> None) es = es"
    by (simp add: filter_id_conv)
  with assms show False
    by (simp add: occupied_def)
qed

lemma occupied_Cons: "occupied (e # es) = (if key e \<noteq> None then 1 else 0) + occupied es"
  by (simp add: occupied_def)

lemma adjustCapacity_loop_chained:
  assumes m: "m \<le> 30"
  shows "chained m new \<Longrightarrow> occupied new + length old < 2 ^ m
    \<Longrightarrow> \<exists>new' c. adjustCapacity_loop old new (2 ^ m) cnt = Some (new', c)
          \<and> chained m new'
          \<and> c = cnt + int (occupied old)
          \<and> (\<forall>k. (\<exists>e\<in>set old. key e = Some k) \<or> (\<exists>j<2 ^ m. key (new ! j) = Some k)
                \<longrightarrow> (\<exists>j<2 ^ m. key (new' ! j) = Some k))"
proof (induction old arbitrary: new cnt)
  case Nil
  then show ?case by (simp add: occupied_def)
next
  case (Cons e old)
  from Cons.prems(1) have len: "length new = 2 ^ m"
    by (simp add: chained_def)
  show ?case
  proof (cases "key e")
    case None
    have room: "occupied new + length old < 2 ^ m"
      using Cons.prems(2) by simp
    from Cons.IH [OF Cons.prems(1) room, of cnt]
    obtain new' c where r: "adjustCapacity_loop old new (2 ^ m) cnt = Some (new', c)"
      "chained m new'" "c = cnt + int (occupied old)"
      "\<forall>k. (\<exists>e\<in>set old. key e = Some k) \<or> (\<exists>j<2 ^ m. key (new ! j) = Some k)
                \<longrightarrow> (\<exists>j<2 ^ m. key (new' ! j) = Some k)"
      by blast
    have run: "adjustCapacity_loop (e # old) new (2 ^ m) cnt = Some (new', c)"
      using r(1) None by simp
    have cnt: "c = cnt + int (occupied (e # old))"
      using r(3) None by (simp add: occupied_Cons)
    have keys: "\<forall>k. (\<exists>x\<in>set (e # old). key x = Some k) \<or> (\<exists>j<2 ^ m. key (new ! j) = Some k)
                \<longrightarrow> (\<exists>j<2 ^ m. key (new' ! j) = Some k)"
      using r(4) None by auto
    from run r(2) cnt keys show ?thesis
      by blast
  next
    case (Some k)
    have step: "\<exists>d<2 ^ m. findEntry new (2 ^ m) k = Some d
        \<and> chained m (new[d := (new ! d)\<lparr>key := key e, val := val e\<rparr>])
        \<and> occupied (new[d := (new ! d)\<lparr>key := key e, val := val e\<rparr>]) \<le> occupied new + 1
        \<and> (key (new ! d) = None \<or> key (new ! d) = Some k)"
    proof (cases "\<exists>j<2 ^ m. key (new ! j) = Some k")
      case True
      then obtain j where j: "j < 2 ^ m" "key (new ! j) = Some k"
        by blast
      have f: "findEntry new (2 ^ m) k = Some j"
        by (rule findEntry_chained_hit [OF m Cons.prems(1) j])
      have c: "chained m (new[j := (new ! j)\<lparr>key := key e, val := val e\<rparr>])"
        by (rule chained_update_same [OF Cons.prems(1) j]) (simp add: Some)
      from j f c occupied_update_le [of new j] show ?thesis
        by blast
    next
      case False
      then have absent: "\<forall>j<2 ^ m. key (new ! j) \<noteq> Some k"
        by blast
      have "occupied new < length new"
        using Cons.prems(2) len by simp
      then have room: "\<exists>e<2 ^ m. key (new ! e) = None"
        using occupied_room [of new] len by simp
      from findEntry_chained_miss [OF m Cons.prems(1) absent room]
      obtain n where n: "n < 2 ^ m" "findEntry new (2 ^ m) k = Some (probe m k n)"
        "key (new ! probe m k n) = None"
        "\<forall>q<n. \<exists>k'. key (new ! probe m k q) = Some k' \<and> k' \<noteq> k"
        by blast
      have c: "chained m (new[probe m k n := (new ! probe m k n)\<lparr>key := key e, val := val e\<rparr>])"
        by (rule chained_update_new [OF Cons.prems(1) n(1) n(3) n(4)]) (simp add: Some)
      from n c probe_lt [of m k n] occupied_update_le [of new "probe m k n"] show ?thesis
        by blast
    qed
    then obtain d where d: "d < 2 ^ m" "findEntry new (2 ^ m) k = Some d"
      and ch1: "chained m (new[d := (new ! d)\<lparr>key := key e, val := val e\<rparr>])"
      and occ1: "occupied (new[d := (new ! d)\<lparr>key := key e, val := val e\<rparr>]) \<le> occupied new + 1"
      and was: "key (new ! d) = None \<or> key (new ! d) = Some k"
      by blast
    let ?new1 = "new[d := (new ! d)\<lparr>key := key e, val := val e\<rparr>]"
    have room1: "occupied ?new1 + length old < 2 ^ m"
      using occ1 Cons.prems(2) by simp
    from Cons.IH [OF ch1 room1, of "cnt + 1"]
    obtain new' c where r: "adjustCapacity_loop old ?new1 (2 ^ m) (cnt + 1) = Some (new', c)"
      "chained m new'" "c = cnt + 1 + int (occupied old)"
      "\<forall>k. (\<exists>e\<in>set old. key e = Some k) \<or> (\<exists>j<2 ^ m. key (?new1 ! j) = Some k)
                \<longrightarrow> (\<exists>j<2 ^ m. key (new' ! j) = Some k)"
      by blast
    have run: "adjustCapacity_loop (e # old) new (2 ^ m) cnt = Some (new', c)"
      using r(1) Some d(2) by simp
    have cnt: "c = cnt + int (occupied (e # old))"
      using r(3) Some by (simp add: occupied_Cons)
    have at: "key (?new1 ! d) = Some k"
      using d(1) len Some by simp
    have kept: "\<exists>j<2 ^ m. key (?new1 ! j) = Some k2" if "j < 2 ^ m" "key (new ! j) = Some k2" for j k2
    proof (cases "j = d")
      case True
      with that was have "k2 = k" by auto
      with at d(1) show ?thesis by blast
    next
      case False
      with that show ?thesis by auto
    qed
    have keys: "\<forall>k2. (\<exists>x\<in>set (e # old). key x = Some k2) \<or> (\<exists>j<2 ^ m. key (new ! j) = Some k2)
                \<longrightarrow> (\<exists>j<2 ^ m. key (new' ! j) = Some k2)"
    proof (intro allI impI)
      fix k2
      assume "(\<exists>x\<in>set (e # old). key x = Some k2) \<or> (\<exists>j<2 ^ m. key (new ! j) = Some k2)"
      then consider "key e = Some k2" | "\<exists>x\<in>set old. key x = Some k2"
        | "\<exists>j<2 ^ m. key (new ! j) = Some k2"
        by auto
      then show "\<exists>j<2 ^ m. key (new' ! j) = Some k2"
      proof cases
        case 1
        with Some have "k2 = k" by simp
        with at d(1) r(4) show ?thesis by blast
      next
        case 2
        with r(4) show ?thesis by blast
      next
        case 3
        with kept r(4) show ?thesis by blast
      qed
    qed
    from run r(2) cnt keys show ?thesis
      by blast
  qed
qed

text \<open>
  Two facts about the loop of \<^verbatim>\<open>findEntry\<close> that need no hypothesis on the array, by
  induction on its run: the result is a slot of the array that holds the key or no key; and
  if it holds the key, the loop returns the same slot after the entry there has been
  replaced by another one with that key.
\<close>

lemma findEntry_loop_result:
  assumes "findEntry_loop es cap k ix tomb = Some i"
  shows "(\<forall>t. tomb = Some t \<longrightarrow> t < length es \<and> key (es ! t) = None)
   \<longrightarrow> i < length es \<and> (key (es ! i) = None \<or> key (es ! i) = Some k)"
proof (rule findEntry_loop.raw_induct [where P = "\<lambda>es cap k ix tomb i.
    (\<forall>t. tomb = Some t \<longrightarrow> t < length es \<and> key (es ! t) = None)
    \<longrightarrow> i < length es \<and> (key (es ! i) = None \<or> key (es ! i) = Some k)", OF _ assms],
    goal_cases)
  case (1 f es cap k ix tomb i)
  show ?case
  proof
    assume t: "\<forall>t. tomb = Some t \<longrightarrow> t < length es \<and> key (es ! t) = None"
    show "i < length es \<and> (key (es ! i) = None \<or> key (es ! i) = Some k)"
    proof (cases "unat ix < length es")
      case False
      with 1(2) show ?thesis by simp
    next
      case inr: True
      show ?thesis
      proof (cases "key (es ! unat ix) = None")
        case kn: True
        show ?thesis
        proof (cases "IS_NIL (val (es ! unat ix))")
          case True
          with 1(2) inr kn t show ?thesis
            by (auto split: option.splits)
        next
          case False
          with 1(2) inr kn
          have call: "f es cap k ((ix + 1) AND word_of_int (cap - 1))
                       (if tomb = None then Some (unat ix) else tomb) = Some i"
            by simp
          have "\<forall>t'. (if tomb = None then Some (unat ix) else tomb) = Some t'
                  \<longrightarrow> t' < length es \<and> key (es ! t') = None"
            using t inr kn by (auto split: if_splits)
          with 1(1) [OF call] show ?thesis
            by blast
        qed
      next
        case kk: False
        show ?thesis
        proof (cases "key (es ! unat ix) = Some k")
          case True
          with 1(2) inr kk show ?thesis by auto
        next
          case False
          with 1(2) inr kk
          have call: "f es cap k ((ix + 1) AND word_of_int (cap - 1)) tomb = Some i"
            by simp
          from 1(1) [OF call] t show ?thesis
            by blast
        qed
      qed
    qed
  qed
qed

lemma findEntry_loop_update:
  assumes "findEntry_loop es cap k ix tomb = Some i"
  shows "key (es ! i) = Some k \<and> i < length es
        \<and> (\<forall>t. tomb = Some t \<longrightarrow> t < length es \<and> key (es ! t) = None)
   \<longrightarrow> (\<forall>tomb' (e'::Entry). key e' = Some k \<longrightarrow> findEntry_loop (es[i := e']) cap k ix tomb' = Some i)"
proof (rule findEntry_loop.raw_induct [where P = "\<lambda>es cap k ix tomb i.
    key (es ! i) = Some k \<and> i < length es
        \<and> (\<forall>t. tomb = Some t \<longrightarrow> t < length es \<and> key (es ! t) = None)
   \<longrightarrow> (\<forall>tomb' (e'::Entry). key e' = Some k \<longrightarrow> findEntry_loop (es[i := e']) cap k ix tomb' = Some i)", OF _ assms],
    goal_cases)
  case (1 f es cap k ix tomb i)
  show ?case
  proof (intro impI allI)
    fix tomb' and e' :: Entry
    assume a: "key (es ! i) = Some k \<and> i < length es
        \<and> (\<forall>t. tomb = Some t \<longrightarrow> t < length es \<and> key (es ! t) = None)"
      and ke: "key e' = Some k"
    show "findEntry_loop (es[i := e']) cap k ix tomb' = Some i"
    proof (cases "unat ix < length es")
      case False
      with 1(2) show ?thesis by simp
    next
      case inr: True
      show ?thesis
      proof (cases "key (es ! unat ix) = None")
        case kn: True
        then have ne: "unat ix \<noteq> i"
          using a by auto
        show ?thesis
        proof (cases "IS_NIL (val (es ! unat ix))")
          case True
          with 1(2) inr kn have "i = (case tomb of None \<Rightarrow> unat ix | Some t \<Rightarrow> t)"
            by simp
          with a kn have False
            by (auto split: option.splits)
          then show ?thesis ..
        next
          case False
          with 1(2) inr kn
          have call: "f es cap k ((ix + 1) AND word_of_int (cap - 1))
                       (if tomb = None then Some (unat ix) else tomb) = Some i"
            by simp
          have "key (es ! i) = Some k \<and> i < length es
                \<and> (\<forall>t'. (if tomb = None then Some (unat ix) else tomb) = Some t'
                  \<longrightarrow> t' < length es \<and> key (es ! t') = None)"
            using a inr kn by (auto split: if_splits)
          with 1(1) [OF call] ke
          have rec: "\<And>tb. findEntry_loop (es[i := e']) cap k ((ix + 1) AND word_of_int (cap - 1)) tb = Some i"
            by blast
          show ?thesis
            using inr kn False ne rec
            by (subst findEntry_loop.simps) simp
        qed
      next
        case kk: False
        show ?thesis
        proof (cases "key (es ! unat ix) = Some k")
          case True
          with 1(2) inr kk have "i = unat ix" by simp
          with inr ke show ?thesis
            by (subst findEntry_loop.simps) simp
        next
          case False
          then have ne: "unat ix \<noteq> i"
            using a by auto
          from False 1(2) inr kk
          have call: "f es cap k ((ix + 1) AND word_of_int (cap - 1)) tomb = Some i"
            by simp
          from 1(1) [OF call] a ke
          have rec: "\<And>tb. findEntry_loop (es[i := e']) cap k ((ix + 1) AND word_of_int (cap - 1)) tb = Some i"
            by blast
          show ?thesis
            using inr kk False ne rec
            by (subst findEntry_loop.simps) auto
        qed
      qed
    qed
  qed
qed

text \<open>\<^verbatim>\<open>tableSet\<close> for a key that the table binds, with and without growing the array.\<close>

lemma occupied_pos:
  assumes "i < length es" and "key (es ! i) \<noteq> None"
  shows "0 < occupied es"
proof -
  from assms have "es ! i \<in> set (filter (\<lambda>e. key e \<noteq> None) es)"
    by simp
  then have "filter (\<lambda>e. key e \<noteq> None) es \<noteq> []"
    by (metis empty_iff list.set(1))
  then show ?thesis
    by (simp add: occupied_def)
qed

lemma chained_replicate: "chained m (replicate (2 ^ m) \<lparr>key = None, val = NIL_VAL\<rparr>)"
  by (simp add: chained_def)

lemma occupied_replicate: "occupied (replicate n \<lparr>key = None, val = NIL_VAL\<rparr>) = 0"
  by (simp add: occupied_def)

lemma findEntry_bound:
  assumes f: "findEntry es cap k = Some i"
  shows "i < length es \<and> (key (es ! i) = None \<or> key (es ! i) = Some k)"
  using findEntry_loop_result [OF f [unfolded findEntry_def]] by simp

lemma findEntry_update:
  assumes f: "findEntry es cap k = Some i" and hit: "key (es ! i) = Some k"
    and ke: "key (e'::Entry) = Some k"
  shows "findEntry (es[i := e']) cap k = Some i"
proof -
  from findEntry_bound [OF f] have "i < length es"
    by simp
  with findEntry_loop_update [OF f [unfolded findEntry_def]] hit ke
  show ?thesis
    unfolding findEntry_def by blast
qed

text \<open>What \<^verbatim>\<open>tableGet\<close> says when it reports a binding.\<close>

lemma tableGet_bound:
  assumes "tableGet t k = Some (Some v0)"
  shows "count t \<noteq> 0 \<and> (\<exists>i. findEntry (entries t) (capacity t) k = Some i
           \<and> i < length (entries t) \<and> key (entries t ! i) = Some k)"
proof -
  from assms have c: "count t \<noteq> 0"
    by (auto simp: tableGet_def split: if_splits)
  with assms obtain i where i: "findEntry (entries t) (capacity t) k = Some i"
    and kn: "key (entries t ! i) \<noteq> None"
    by (auto simp: tableGet_def split: if_splits option.splits)
  from findEntry_bound [OF i] kn have "i < length (entries t) \<and> key (entries t ! i) = Some k"
    by blast
  with c i show ?thesis
    by blast
qed

text \<open>Storing under a key that the located entry already holds.\<close>

lemma tableSet_store:
  assumes f: "findEntry (entries t) (capacity t) k = Some i"
    and hit: "key (entries t ! i) = Some k" and c: "count t \<noteq> 0"
  shows "\<exists>t'. (case findEntry (entries t) (capacity t) k of
             None \<Rightarrow> None
           | Some i \<Rightarrow>
               (let isNewKey = (key (entries t ! i) = None)
                in Some (isNewKey,
                     t\<lparr>count := (if isNewKey \<and> IS_NIL (val (entries t ! i)) then count t + 1
                                  else count t),
                       entries := (entries t)[i := (entries t ! i)\<lparr>key := Some k, val := v\<rparr>]\<rparr>)))
            = Some (False, t')
          \<and> tableGet t' k = Some (Some v)
          \<and> capacity t' = capacity t \<and> length (entries t') = length (entries t)"
proof -
  let ?e = "(entries t ! i)\<lparr>key := Some k, val := v\<rparr>"
  have lt: "i < length (entries t)"
    using findEntry_bound [OF f] by simp
  have f': "findEntry ((entries t)[i := ?e]) (capacity t) k = Some i"
    by (rule findEntry_update [OF f hit]) simp
  show ?thesis
    using f hit c f' lt by (simp add: tableGet_def)
qed

lemma grow_power:
  assumes "m \<le> 29"
  shows "\<exists>m'. m' \<le> 30 \<and> m < m' \<and> GROW_CAPACITY (2 ^ m) = 2 ^ m'"
proof (cases "m < 3")
  case True
  then have "(2::int) ^ m < 2 ^ 3"
    by (intro power_strict_increasing) simp_all
  then have "GROW_CAPACITY (2 ^ m) = 2 ^ 3"
    by (simp add: GROW_CAPACITY_def)
  with True show ?thesis
    by (intro exI [of _ 3]) simp
next
  case False
  then have "(2::int) ^ 3 \<le> 2 ^ m"
    by (intro power_increasing) simp_all
  then have "GROW_CAPACITY (2 ^ m) = 2 ^ Suc m"
    by (simp add: GROW_CAPACITY_def)
  with assms show ?thesis
    by (intro exI [of _ "Suc m"]) simp
qed

lemma adjustCapacity_grow:
  assumes m: "m \<le> 29" and cap: "capacity t = 2 ^ m" and len: "length (entries t) = 2 ^ m"
    and i: "i < length (entries t)" and hit: "key (entries t ! i) = Some k"
  shows "\<exists>t' m' j. adjustCapacity t (GROW_CAPACITY (capacity t)) = Some t'
           \<and> m' \<le> 30 \<and> capacity t' = 2 ^ m' \<and> length (entries t') = 2 ^ m'
           \<and> count t' \<noteq> 0
           \<and> findEntry (entries t') (capacity t') k = Some j \<and> key (entries t' ! j) = Some k"
proof -
  from grow_power [OF m] obtain m' where m': "m' \<le> 30" "m < m'"
    and g: "GROW_CAPACITY (2 ^ m) = 2 ^ m'"
    by blast
  let ?new = "replicate (2 ^ m') \<lparr>key = None, val = NIL_VAL\<rparr>"
  have tk: "take (nat (capacity t)) (entries t) = entries t"
    using cap len by (simp add: nat_power_eq)
  have nc: "nat (2 ^ m' :: int) = 2 ^ m'"
    by (simp add: nat_power_eq)
  have room: "occupied ?new + length (entries t) < 2 ^ m'"
    using len m'(2) by (simp add: occupied_replicate)
  from adjustCapacity_loop_chained [OF m'(1) chained_replicate room, of 0]
  obtain new' c where run: "adjustCapacity_loop (entries t) ?new (2 ^ m') 0 = Some (new', c)"
    and ch: "chained m' new'" and c: "c = 0 + int (occupied (entries t))"
    and keep: "\<forall>k. (\<exists>e\<in>set (entries t). key e = Some k) \<or> (\<exists>j<2 ^ m'. key (?new ! j) = Some k)
                \<longrightarrow> (\<exists>j<2 ^ m'. key (new' ! j) = Some k)"
    by blast
  from i hit have "\<exists>e\<in>set (entries t). key e = Some k"
    by (metis nth_mem)
  with keep obtain j where j: "j < 2 ^ m'" "key (new' ! j) = Some k"
    by blast
  have f: "findEntry new' (2 ^ m') k = Some j"
    by (rule findEntry_chained_hit [OF m'(1) ch j])
  have pos: "c \<noteq> 0"
    using occupied_pos [OF i] hit c by simp
  have lenn: "length new' = 2 ^ m'"
    using ch by (simp add: chained_def)
  let ?t' = "\<lparr>count = c, capacity = 2 ^ m', entries = new'\<rparr>"
  have "adjustCapacity t (GROW_CAPACITY (capacity t)) = Some ?t'"
    using cap len run by (simp add: adjustCapacity_def g tk nc)
  with m'(1) f j(2) pos lenn show ?thesis
    by (intro exI [of _ ?t'] exI [of _ m'] exI [of _ j]) simp
qed

lemma tableSet_bound:
  assumes m: "m \<le> 29" and cap: "capacity t = 2 ^ m" and len: "length (entries t) = 2 ^ m"
    and bound: "tableGet t k = Some (Some v0)"
  shows "\<exists>t' m'. tableSet t k v = Some (False, t') \<and> tableGet t' k = Some (Some v)
           \<and> m' \<le> 30 \<and> capacity t' = 2 ^ m' \<and> length (entries t') = 2 ^ m'"
proof -
  from tableGet_bound [OF bound] obtain i where c: "count t \<noteq> 0"
    and f: "findEntry (entries t) (capacity t) k = Some i"
    and i: "i < length (entries t)" and hit: "key (entries t ! i) = Some k"
    by blast
  show ?thesis
  proof (cases "exceeds_max_load (count t) (capacity t)")
    case False
    from tableSet_store [OF f hit c, of v] obtain t' where
      t': "(case findEntry (entries t) (capacity t) k of
             None \<Rightarrow> None
           | Some i \<Rightarrow>
               (let isNewKey = (key (entries t ! i) = None)
                in Some (isNewKey,
                     t\<lparr>count := (if isNewKey \<and> IS_NIL (val (entries t ! i)) then count t + 1
                                  else count t),
                       entries := (entries t)[i := (entries t ! i)\<lparr>key := Some k, val := v\<rparr>]\<rparr>)))
            = Some (False, t')"
      and g: "tableGet t' k = Some (Some v)"
      and s: "capacity t' = capacity t" "length (entries t') = length (entries t)"
      by blast
    from False t' have "tableSet t k v = Some (False, t')"
      by (simp add: tableSet_def)
    with g s cap len m show ?thesis
      by (intro exI [of _ t'] exI [of _ m]) simp
  next
    case True
    from adjustCapacity_grow [OF m cap len i hit] obtain u m' j where
      a: "adjustCapacity t (GROW_CAPACITY (capacity t)) = Some u"
      and m': "m' \<le> 30" "capacity u = 2 ^ m'" "length (entries u) = 2 ^ m'"
      and cu: "count u \<noteq> 0"
      and fu: "findEntry (entries u) (capacity u) k = Some j"
      and hu: "key (entries u ! j) = Some k"
      by blast
    from tableSet_store [OF fu hu cu, of v] obtain t' where
      t': "(case findEntry (entries u) (capacity u) k of
             None \<Rightarrow> None
           | Some i \<Rightarrow>
               (let isNewKey = (key (entries u ! i) = None)
                in Some (isNewKey,
                     u\<lparr>count := (if isNewKey \<and> IS_NIL (val (entries u ! i)) then count u + 1
                                  else count u),
                       entries := (entries u)[i := (entries u ! i)\<lparr>key := Some k, val := v\<rparr>]\<rparr>)))
            = Some (False, t')"
      and g: "tableGet t' k = Some (Some v)"
      and s: "capacity t' = capacity u" "length (entries t') = length (entries u)"
      by blast
    from True a t' have "tableSet t k v = Some (False, t')"
      by (simp add: tableSet_def)
    with g s m' show ?thesis
      by (intro exI [of _ t'] exI [of _ m']) simp
  qed
qed

section \<open>Properties of the scanner\<close>

text \<open>
  C4. The text of two lines, a comment and then the identifier \<open>x\<close>: the first call of
  \<^verbatim>\<open>scanToken\<close> skips the comment, stops in front of the newline and returns an error
  token for it (with the message Unexpected character.), with the line counter unchanged; only the second
  call returns the identifier, still on line 1.
\<close>

theorem scanToken_after_comment:
  "scanToken (initScanner comment_then_x) =
     (\<lparr>type = TOKEN_ERROR, lexeme = ''Unexpected character.'', token_line = 1\<rparr>,
      \<lparr>source = comment_then_x, start = 4, current = 5, line = 1\<rparr>)
   \<and> fst (scanToken (snd (scanToken (initScanner comment_then_x)))) =
     \<lparr>type = TOKEN_IDENTIFIER, lexeme = ''x'', token_line = 1\<rparr>"
  by code_simp

section \<open>Properties of the virtual machine\<close>

subsection \<open>Calling a native function\<close>

lemma OBJ_VAL_is_obj: "IS_OBJ (OBJ_VAL p)"
  unfolding IS_OBJ_def OBJ_VAL_def
  by (rule bit_eqI) (auto simp: bit_and_iff bit_or_iff)

lemma stack_peek_Some:
  "stack_peek vm d = Some v \<Longrightarrow> d < length (stack vm) \<and> v = stack vm ! (length (stack vm) - 1 - d)"
  by (auto simp: stack_peek_def split: if_splits)

text \<open>
  C10. A call instruction whose callee is a native function: whatever the argument count,
  the dispatch calls the function with the arguments on the stack, removes the callee and
  the arguments (argCount + 1 slots), pushes the result and goes on with the next
  instruction; it prints no error. The native function \<open>clock\<close> returns the clock reading
  for every argument count and every argument list.
\<close>

theorem callValue_native:
  assumes "stack_peek vm argCount = Some callee"
    and "IS_OBJ callee"
    and "heap vm (AS_OBJ callee) = Some (OBJ_NATIVE native)"
  shows "callValue now fresh vm callee argCount =
           Some (True, vm\<lparr>stack := take (length (stack vm) - (argCount + 1)) (stack vm)
                   @ [native now argCount (drop (length (stack vm) - argCount) (stack vm))]\<rparr>)
         \<and> op_call now fresh vm argCount =
           Some (Next (vm\<lparr>stack := take (length (stack vm) - (argCount + 1)) (stack vm)
                   @ [native now argCount (drop (length (stack vm) - argCount) (stack vm))]\<rparr>))
         \<and> (\<forall>n args. clockNative now n args = NUMBER_VAL now)"
proof -
  from assms(1) have "argCount < length (stack vm)"
    by (simp add: stack_peek_Some)
  with assms show ?thesis
    by (simp add: op_call_def callValue_def push_def clockNative_def)
qed

lemma as_obj_5000: "AS_OBJ (OBJ_VAL 0x5000) = 0x5000"
  by (simp add: AS_OBJ_def OBJ_VAL_def SIGN_BIT_def QNAN_def)

text \<open>The call \<open>clock(nil, true)\<close>: both arguments and the callee go, the clock reading stays.\<close>

theorem callValue_native_witness:
  "op_call number_one 0 (vm_script [OBJ_VAL 0x5000, NIL_VAL, TRUE_VAL]) 2 =
     Some (Next ((vm_script [OBJ_VAL 0x5000, NIL_VAL, TRUE_VAL])
                   \<lparr>stack := [OBJ_VAL 0x7000, NUMBER_VAL number_one]\<rparr>))"
proof -
  have s: "stack (vm_script [OBJ_VAL 0x5000, NIL_VAL, TRUE_VAL])
             = [OBJ_VAL 0x7000, OBJ_VAL 0x5000, NIL_VAL, TRUE_VAL]"
    by (simp add: vm_script_def)
  have p: "stack_peek (vm_script [OBJ_VAL 0x5000, NIL_VAL, TRUE_VAL]) 2 = Some (OBJ_VAL 0x5000)"
    by (simp add: stack_peek_def s)
  have h: "heap (vm_script [OBJ_VAL 0x5000, NIL_VAL, TRUE_VAL]) (AS_OBJ (OBJ_VAL 0x5000))
             = Some (OBJ_NATIVE clockNative)"
    by (simp add: vm_script_def as_obj_5000)
  show ?thesis
    using callValue_native [OF p OBJ_VAL_is_obj h, of number_one 0]
    by (simp add: s clockNative_def)
qed

subsection \<open>Calling a class\<close>

text \<open>
  C6. A call instruction whose callee is a class: the callee slot of the stack is replaced
  by a new instance of the class, allocated at a fresh address, with an empty field table.
  When \<^verbatim>\<open>tableGet\<close> finds the cached string \<open>init\<close> in the method table of the class, the
  closure it yields is called with the argument count of the instruction. When it does not,
  the call succeeds exactly if the argument count is zero, and otherwise reports a runtime
  error.
\<close>

theorem callValue_class:
  assumes "stack_peek vm argCount = Some callee"
    and "IS_OBJ callee"
    and "heap vm (AS_OBJ callee) = Some (OBJ_CLASS name methods)"
    and "heap vm fresh = None"
  shows "heap (with_instance fresh vm callee argCount) fresh
           = Some (OBJ_INSTANCE (AS_OBJ callee) initTable)
     \<and> stack_peek (with_instance fresh vm callee argCount) argCount = Some (OBJ_VAL fresh)
     \<and> (\<forall>initializer. tableGet methods (initString vm) = Some (Some initializer) \<longrightarrow>
          callValue now fresh vm callee argCount
            = call (with_instance fresh vm callee argCount) (AS_OBJ initializer) argCount)
     \<and> (tableGet methods (initString vm) = Some None \<longrightarrow>
          callValue now fresh vm callee argCount
            = (if argCount = 0 then Some (True, with_instance fresh vm callee argCount)
               else Some (False, runtimeError (with_instance fresh vm callee argCount)
                            ''Expected 0  arguments but got %d.'' [ArgInt (int argCount)])))"
proof -
  from assms(3,4) have ne: "AS_OBJ callee \<noteq> fresh"
    by auto
  from assms(1) have len: "argCount < length (stack vm)"
    by (simp add: stack_peek_Some)
  show ?thesis
    using assms(2,3,4) ne len
    by (auto simp: callValue_def newInstance_def with_instance_def stack_peek_def Let_def)
qed

lemma as_obj_samples:
  "AS_OBJ (OBJ_VAL 0xA000) = 0xA000" "AS_OBJ (OBJ_VAL 0x9000) = 0x9000"
  by (simp_all add: AS_OBJ_def OBJ_VAL_def SIGN_BIT_def QNAN_def)

lemma tableGet_methods_init: "tableGet methods_init string_init = Some (Some (OBJ_VAL 0x9000))"
  by code_simp

lemma tableGet_no_methods: "tableGet initTable string_init = Some None"
  by code_simp

text \<open>
  A class with the method \<open>init\<close> of one parameter, called with one argument: the
  initializer gets a frame. A class without methods, called with no argument and with one.
\<close>

theorem callValue_class_witness:
  "callValue number_one 0xF000 (vm_class methods_init [NIL_VAL]) (OBJ_VAL 0xA000) 1
     = Some (True, (with_instance 0xF000 (vm_class methods_init [NIL_VAL]) (OBJ_VAL 0xA000) 1)
          \<lparr>frames := [\<lparr>closure = 0x7000, ip = 4, slots = 0\<rparr>, \<lparr>closure = 0x9000, ip = 0, slots = 1\<rparr>]\<rparr>)
   \<and> callValue number_one 0xF000 (vm_class initTable []) (OBJ_VAL 0xA000) 0
     = Some (True, with_instance 0xF000 (vm_class initTable []) (OBJ_VAL 0xA000) 0)
   \<and> callValue number_one 0xF000 (vm_class initTable [NIL_VAL]) (OBJ_VAL 0xA000) 1
     = Some (False, runtimeError (with_instance 0xF000 (vm_class initTable [NIL_VAL]) (OBJ_VAL 0xA000) 1)
          ''Expected 0  arguments but got %d.'' [ArgInt 1])"
proof -
  have st: "\<And>m args. stack (vm_class m args) = OBJ_VAL 0x7000 # OBJ_VAL 0xA000 # args"
    by (simp add: vm_class_def vm_script_def)
  have hp: "\<And>m args. heap (vm_class m args) (AS_OBJ (OBJ_VAL 0xA000)) = Some (OBJ_CLASS string_Point m)"
    by (simp add: vm_class_def as_obj_samples)
  have fr: "\<And>m args. heap (vm_class m args) 0xF000 = None"
    by (simp add: vm_class_def)
  have ini: "\<And>m args. initString (vm_class m args) = string_init"
    by (simp add: vm_class_def vm_script_def)
  have p1: "\<And>m. stack_peek (vm_class m [NIL_VAL]) 1 = Some (OBJ_VAL 0xA000)"
    by (simp add: stack_peek_def st)
  have p0: "\<And>m. stack_peek (vm_class m []) 0 = Some (OBJ_VAL 0xA000)"
    by (simp add: stack_peek_def st)
  have c: "call (with_instance 0xF000 (vm_class methods_init [NIL_VAL]) (OBJ_VAL 0xA000) 1) 0x9000 1
      = Some (True, (with_instance 0xF000 (vm_class methods_init [NIL_VAL]) (OBJ_VAL 0xA000) 1)
          \<lparr>frames := [\<lparr>closure = 0x7000, ip = 4, slots = 0\<rparr>, \<lparr>closure = 0x9000, ip = 0, slots = 1\<rparr>]\<rparr>)"
    by (simp add: call_def with_instance_def vm_class_def vm_script_def FRAMES_MAX_def)
  have w1: "callValue number_one 0xF000 (vm_class methods_init [NIL_VAL]) (OBJ_VAL 0xA000) 1
     = Some (True, (with_instance 0xF000 (vm_class methods_init [NIL_VAL]) (OBJ_VAL 0xA000) 1)
          \<lparr>frames := [\<lparr>closure = 0x7000, ip = 4, slots = 0\<rparr>, \<lparr>closure = 0x9000, ip = 0, slots = 1\<rparr>]\<rparr>)"
  proof -
    note T = callValue_class [OF p1 OBJ_VAL_is_obj hp fr, of methods_init number_one, unfolded ini]
    from T tableGet_methods_init
    have "callValue number_one 0xF000 (vm_class methods_init [NIL_VAL]) (OBJ_VAL 0xA000) 1
      = call (with_instance 0xF000 (vm_class methods_init [NIL_VAL]) (OBJ_VAL 0xA000) 1)
          (AS_OBJ (OBJ_VAL 0x9000)) 1"
      by blast
    then show ?thesis
      by (simp only: as_obj_samples c)
  qed
  have w2: "callValue number_one 0xF000 (vm_class initTable []) (OBJ_VAL 0xA000) 0
     = Some (True, with_instance 0xF000 (vm_class initTable []) (OBJ_VAL 0xA000) 0)"
    using callValue_class [OF p0 OBJ_VAL_is_obj hp fr, of initTable number_one]
    by (simp add: ini tableGet_no_methods)
  have w3: "callValue number_one 0xF000 (vm_class initTable [NIL_VAL]) (OBJ_VAL 0xA000) 1
     = Some (False, runtimeError (with_instance 0xF000 (vm_class initTable [NIL_VAL]) (OBJ_VAL 0xA000) 1)
          ''Expected 0  arguments but got %d.'' [ArgInt 1])"
    using callValue_class [OF p1 OBJ_VAL_is_obj hp fr, of initTable number_one]
    by (simp add: ini tableGet_no_methods)
  from w1 w2 w3 show ?thesis
    by simp
qed

subsection \<open>Assigning to an undefined global\<close>

lemma tableSet_x: "tableSet globals_clock string_x v = Some (True, globals_clock_x v)"
  by code_simp

lemma tableDelete_x:
  "tableDelete (globals_clock_x v) string_x = Some (True, globals_clock_x (BOOL_VAL True))"
  by code_simp

text \<open>
  C2. The script \<open>x = 1;\<close> in a fresh interpreter, at its \<^verbatim>\<open>OP_SET_GLOBAL\<close>: the name \<open>x\<close> is
  not a key of the globals, and the instruction ends \<^verbatim>\<open>run\<close> with a runtime error and the
  message for an undefined variable. The globals it leaves behind differ from the globals
  before: they hold an entry with the key \<open>x\<close> and the value true, which \<^verbatim>\<open>tableGet\<close> finds.
\<close>

theorem op_set_global_undefined_changes_globals:
  "tableGet (globals (vm_script [NUMBER_VAL number_one])) string_x = Some None
   \<and> op_set_global (vm_script [NUMBER_VAL number_one]) string_x =
     Some (Return INTERPRET_RUNTIME_ERROR
       (runtimeError ((vm_script [NUMBER_VAL number_one])\<lparr>globals := globals_clock_x (BOOL_VAL True)\<rparr>)
          ''Undefined variable '%s'.'' [ArgStr ''x'']))
   \<and> tableGet (globals_clock_x (BOOL_VAL True)) string_x = Some (Some (BOOL_VAL True))"
proof (intro conjI)
  show "op_set_global (vm_script [NUMBER_VAL number_one]) string_x =
     Some (Return INTERPRET_RUNTIME_ERROR
       (runtimeError ((vm_script [NUMBER_VAL number_one])\<lparr>globals := globals_clock_x (BOOL_VAL True)\<rparr>)
          ''Undefined variable '%s'.'' [ArgStr ''x'']))"
  proof -
    have "stack (vm_script [NUMBER_VAL number_one]) = [OBJ_VAL 0x7000, NUMBER_VAL number_one]"
      and "globals (vm_script [NUMBER_VAL number_one]) = globals_clock"
      and "chars string_x = ''x''"
      by (simp_all add: vm_script_def string_x_def)
    then show ?thesis
      by (simp add: op_set_global_def stack_peek_def tableSet_x tableDelete_x)
  qed
  show "tableGet (globals (vm_script [NUMBER_VAL number_one])) string_x = Some None"
    unfolding vm_script_def by code_simp
  show "tableGet (globals_clock_x (BOOL_VAL True)) string_x = Some (Some (BOOL_VAL True))"
    by code_simp
qed

subsection \<open>The list of open upvalues\<close>

lemma desc_Nil [simp]: "desc s []"
  by (simp add: desc_def)

lemma desc_Cons [simp]: "desc s (x # xs) = ((\<forall>y\<in>set xs. s y < s x) \<and> desc s xs)"
  by (simp add: desc_def)

lemma desc_append:
  "desc s (xs @ ys) = (desc s xs \<and> desc s ys \<and> (\<forall>x\<in>set xs. \<forall>y\<in>set ys. s y < s x))"
  by (simp add: desc_def sorted_wrt_append)

lemma desc_dropWhile_le:
  "desc s us \<Longrightarrow> y \<in> set (dropWhile (\<lambda>u. local < s u) us) \<Longrightarrow> s y \<le> local"
  by (induction us) (auto split: if_splits)

lemma desc_dropWhile:
  "desc s us \<Longrightarrow> desc s (dropWhile P us)"
  by (induction us) auto

lemma desc_takeWhile:
  "desc s us \<Longrightarrow> desc s (takeWhile P us)"
  by (induction us) (auto dest: set_takeWhileD)

lemma desc_cong:
  "(\<And>u. u \<in> set us \<Longrightarrow> s' u = s u) \<Longrightarrow> desc s' us = desc s us"
  by (induction us) auto

lemma desc_insert:
  assumes "desc s us"
    and "\<And>u. u \<in> set us \<Longrightarrow> s' u = s u"
    and "s' fresh = local"
    and "dropWhile (\<lambda>u. local < s u) us = [] \<or> s (hd (dropWhile (\<lambda>u. local < s u) us)) \<noteq> local"
  shows "desc s' (takeWhile (\<lambda>u. local < s u) us @ fresh # dropWhile (\<lambda>u. local < s u) us)"
  using assms
proof (induction us)
  case Nil
  then show ?case by simp
next
  case (Cons x xs)
  show ?case
  proof (cases "local < s x")
    case True
    have "desc s' (takeWhile (\<lambda>u. local < s u) xs @ fresh # dropWhile (\<lambda>u. local < s u) xs)"
      using Cons True by (intro Cons.IH) auto
    moreover have "\<forall>y \<in> set (takeWhile (\<lambda>u. local < s u) xs @ fresh # dropWhile (\<lambda>u. local < s u) xs). s' y < s' x"
    proof
      fix y assume "y \<in> set (takeWhile (\<lambda>u. local < s u) xs @ fresh # dropWhile (\<lambda>u. local < s u) xs)"
      then consider "y \<in> set xs" | "y = fresh"
        by (auto dest: set_takeWhileD set_dropWhileD)
      then show "s' y < s' x"
      proof cases
        case 1
        with Cons.prems show ?thesis by auto
      next
        case 2
        with Cons.prems True show ?thesis by auto
      qed
    qed
    ultimately show ?thesis using True by simp
  next
    case False
    have lt: "s x < local"
      using Cons.prems(4) False by auto
    have "\<forall>y \<in> set (x # xs). s' y < local"
      using Cons.prems(1,2) lt by fastforce
    moreover have "desc s' (x # xs)"
      using Cons.prems(1,2) desc_cong [of "x # xs" s' s] by blast
    ultimately show ?thesis
      using False Cons.prems(3) by auto
  qed
qed


lemma desc_insert_append:
  "desc s' (xs @ fresh # ys) =
     (desc s' xs \<and> desc s' ys \<and> (\<forall>x\<in>set xs. s' fresh < s' x) \<and> (\<forall>y\<in>set ys. s' y < s' fresh)
      \<and> (\<forall>x\<in>set xs. \<forall>y\<in>set ys. s' y < s' x))"
  by (auto simp: desc_append)

lemma desc_distinct_head: "desc s (u # us) \<Longrightarrow> u \<notin> set us"
  by auto

lemma desc_filter_lt:
  "desc s (u # us) \<Longrightarrow> s u < b \<Longrightarrow> filter (\<lambda>x. s x < b) (u # us) = u # us"
  by (auto simp: filter_id_conv)

lemma slot_of_upd_other: "u \<noteq> a \<Longrightarrow> slot_of (h(a \<mapsto> x)) u = slot_of h u"
  by (simp add: slot_of_def)

lemma slot_of_upd_open: "slot_of (h(a \<mapsto> OBJ_UPVALUE (StackSlot n) c)) a = Some n"
  by (simp add: slot_of_def)

lemma slot_of_upd_closed: "slot_of (h(a \<mapsto> OBJ_UPVALUE ClosedField c)) a = None"
  by (simp add: slot_of_def)

lemma slot_of_in_heap: "slot_of h u \<noteq> None \<Longrightarrow> h u \<noteq> None"
  by (auto simp: slot_of_def split: option.splits)

lemma open_upvalues_sorted_iff:
  "open_upvalues_sorted vm =
     ((\<forall>u\<in>set (openUpvalues vm). slot_of (heap vm) u \<noteq> None)
      \<and> desc (\<lambda>u. the (slot_of (heap vm) u)) (openUpvalues vm))"
  by (simp add: open_upvalues_sorted_def desc_def list_all_iff sorted_wrt_map)

lemma closeUpvalues_loop_correct:
  assumes "\<forall>u\<in>set us. slot_of h u \<noteq> None"
    and "desc (\<lambda>u. the (slot_of h u)) us"
    and "closeUpvalues_loop stk b h us = (h', rest)"
  shows "rest = filter (\<lambda>u. the (slot_of h u) < b) us
         \<and> (\<forall>u\<in>set rest. slot_of h' u = slot_of h u)
         \<and> (\<forall>u\<in>set us. u \<notin> set rest \<longrightarrow>
              h' u = Some (OBJ_UPVALUE ClosedField (stk ! the (slot_of h u))))
         \<and> (\<forall>a. a \<notin> set us \<longrightarrow> h' a = h a)"
  using assms
proof (induction us arbitrary: h)
  case Nil
  then show ?case by simp
next
  case (Cons u us)
  from Cons.prems(1) obtain n where n: "slot_of h u = Some n"
    by auto
  have notin: "u \<notin> set us"
    using Cons.prems(2) by auto
  show ?case
  proof (cases "b \<le> n")
    case True
    let ?h1 = "h(u \<mapsto> OBJ_UPVALUE ClosedField (stk ! n))"
    have same: "slot_of ?h1 x = slot_of h x" if "x \<in> set us" for x
    proof -
      from that notin have "x \<noteq> u" by auto
      then show ?thesis by (simp add: slot_of_upd_other)
    qed
    have run: "closeUpvalues_loop stk b ?h1 us = (h', rest)"
      using Cons.prems(3) n True by simp
    have p1: "\<forall>x\<in>set us. slot_of ?h1 x \<noteq> None"
      using Cons.prems(1) same by simp
    have p2: "desc (\<lambda>x. the (slot_of ?h1 x)) us"
      using Cons.prems(2) same desc_cong [of us "\<lambda>x. the (slot_of ?h1 x)" "\<lambda>x. the (slot_of h x)"]
      by simp
    note IH = Cons.IH [OF p1 p2 run]
    have i1: "rest = filter (\<lambda>x. the (slot_of ?h1 x) < b) us"
      using IH by (rule conjunct1)
    have i2: "\<forall>x\<in>set rest. slot_of h' x = slot_of ?h1 x"
      using IH by blast
    have i3: "\<forall>x\<in>set us. x \<notin> set rest \<longrightarrow>
                h' x = Some (OBJ_UPVALUE ClosedField (stk ! the (slot_of ?h1 x)))"
      using IH by blast
    have i4: "\<forall>a. a \<notin> set us \<longrightarrow> h' a = ?h1 a"
      using IH by blast
    have feq: "filter (\<lambda>x. the (slot_of ?h1 x) < b) us = filter (\<lambda>x. the (slot_of h x) < b) us"
      by (rule filter_cong) (simp_all only: same)
    have sub: "set rest \<subseteq> set us"
      unfolding i1 by auto
    have "filter (\<lambda>x. the (slot_of h x) < b) (u # us) = filter (\<lambda>x. the (slot_of h x) < b) us"
      using n True by simp
    with i1 feq have r1: "rest = filter (\<lambda>x. the (slot_of h x) < b) (u # us)"
      by (simp only:)
    have r2: "\<forall>x\<in>set rest. slot_of h' x = slot_of h x"
    proof
      fix x assume x: "x \<in> set rest"
      with sub have "x \<in> set us" by auto
      with i2 x same show "slot_of h' x = slot_of h x" by (simp only:)
    qed
    have r3: "\<forall>x\<in>set (u # us). x \<notin> set rest \<longrightarrow>
                h' x = Some (OBJ_UPVALUE ClosedField (stk ! the (slot_of h x)))"
    proof (intro ballI impI)
      fix x assume x: "x \<in> set (u # us)" and nr: "x \<notin> set rest"
      show "h' x = Some (OBJ_UPVALUE ClosedField (stk ! the (slot_of h x)))"
      proof (cases "x = u")
        case True
        with i4 notin have "h' x = ?h1 x" by blast
        with True n show ?thesis by simp
      next
        case False
        with x have xin: "x \<in> set us" by simp
        with i3 nr have "h' x = Some (OBJ_UPVALUE ClosedField (stk ! the (slot_of ?h1 x)))"
          by blast
        with same [OF xin] show ?thesis by (simp only:)
      qed
    qed
    have r4: "\<forall>a. a \<notin> set (u # us) \<longrightarrow> h' a = h a"
    proof (intro allI impI)
      fix a assume a: "a \<notin> set (u # us)"
      then have "a \<notin> set us" and "a \<noteq> u" by auto
      with i4 show "h' a = h a" by simp
    qed
    from r1 r2 r3 r4 show ?thesis by blast
  next
    case False
    then have res: "h' = h" "rest = u # us"
      using Cons.prems(3) n by auto
    have "filter (\<lambda>x. the (slot_of h x) < b) (u # us) = u # us"
      using desc_filter_lt [OF Cons.prems(2), of b] n False by simp
    with res show ?thesis by simp
  qed
qed


lemma location_above_open:
  "slot_of h u \<noteq> None \<Longrightarrow> location_above h local u = (local < the (slot_of h u))"
  by (auto simp: location_above_def)

lemma location_is_open:
  "slot_of h u \<noteq> None \<Longrightarrow> location_is h local u = (the (slot_of h u) = local)"
  by (auto simp: location_is_def)

lemma closeUpvalues_correct:
  assumes "open_upvalues_sorted vm"
  shows "open_upvalues_sorted (closeUpvalues vm b)
     \<and> openUpvalues (closeUpvalues vm b)
         = filter (\<lambda>u. the (slot_of (heap vm) u) < b) (openUpvalues vm)
     \<and> (\<forall>u\<in>set (openUpvalues (closeUpvalues vm b)).
           slot_of (heap (closeUpvalues vm b)) u = slot_of (heap vm) u)
     \<and> (\<forall>u\<in>set (openUpvalues vm). b \<le> the (slot_of (heap vm) u) \<longrightarrow>
           heap (closeUpvalues vm b) u
             = Some (OBJ_UPVALUE ClosedField (stack vm ! the (slot_of (heap vm) u))))"
proof -
  obtain h' rest where run: "closeUpvalues_loop (stack vm) b (heap vm) (openUpvalues vm) = (h', rest)"
    by (cases "closeUpvalues_loop (stack vm) b (heap vm) (openUpvalues vm)")
  have res: "heap (closeUpvalues vm b) = h'" "openUpvalues (closeUpvalues vm b) = rest"
    using run by (simp_all add: closeUpvalues_def)
  from assms have a1: "\<forall>u\<in>set (openUpvalues vm). slot_of (heap vm) u \<noteq> None"
    and a2: "desc (\<lambda>u. the (slot_of (heap vm) u)) (openUpvalues vm)"
    by (simp_all add: open_upvalues_sorted_iff)
  note L = closeUpvalues_loop_correct [OF a1 a2 run]
  have l1: "rest = filter (\<lambda>u. the (slot_of (heap vm) u) < b) (openUpvalues vm)"
    using L by (rule conjunct1)
  have l2: "\<forall>u\<in>set rest. slot_of h' u = slot_of (heap vm) u"
    using L by blast
  have l3: "\<forall>u\<in>set (openUpvalues vm). u \<notin> set rest \<longrightarrow>
              h' u = Some (OBJ_UPVALUE ClosedField (stack vm ! the (slot_of (heap vm) u)))"
    using L by blast
  have sub: "set rest \<subseteq> set (openUpvalues vm)"
    unfolding l1 by auto
  have d0: "desc (\<lambda>u. the (slot_of (heap vm) u)) rest"
    using a2 unfolding l1 desc_def by (rule sorted_wrt_filter)
  have "desc (\<lambda>u. the (slot_of h' u)) rest = desc (\<lambda>u. the (slot_of (heap vm) u)) rest"
    by (rule desc_cong) (simp add: l2)
  with d0 have d: "desc (\<lambda>u. the (slot_of h' u)) rest"
    by simp
  have o: "\<forall>u\<in>set rest. slot_of h' u \<noteq> None"
    using l2 a1 sub by auto
  have c1: "open_upvalues_sorted (closeUpvalues vm b)"
    using d o by (simp add: open_upvalues_sorted_iff res)
  have c4: "\<forall>u\<in>set (openUpvalues vm). b \<le> the (slot_of (heap vm) u) \<longrightarrow>
           h' u = Some (OBJ_UPVALUE ClosedField (stack vm ! the (slot_of (heap vm) u)))"
  proof (intro ballI impI)
    fix u assume u: "u \<in> set (openUpvalues vm)" and ge: "b \<le> the (slot_of (heap vm) u)"
    then have "u \<notin> set rest"
      unfolding l1 by simp
    with l3 u show "h' u = Some (OBJ_UPVALUE ClosedField (stack vm ! the (slot_of (heap vm) u)))"
      by blast
  qed
  from c1 l1 l2 c4 show ?thesis
    by (simp add: res)
qed

lemma captureUpvalue_found:
  assumes "open_upvalues_sorted vm"
    and "u \<in> set (openUpvalues vm)"
    and "slot_of (heap vm) u = Some local"
  shows "captureUpvalue fresh vm local = (u, vm)"
proof -
  let ?s = "\<lambda>x. the (slot_of (heap vm) x)"
  let ?P = "location_above (heap vm) local"
  let ?us = "openUpvalues vm"
  from assms(1) have a1: "\<forall>x\<in>set ?us. slot_of (heap vm) x \<noteq> None"
    and a2: "desc ?s ?us"
    by (simp_all add: open_upvalues_sorted_iff)
  have P: "?P x = (local < ?s x)" if "x \<in> set ?us" for x
    using a1 that by (simp add: location_above_open)
  have tw: "takeWhile ?P ?us = takeWhile (\<lambda>x. local < ?s x) ?us"
    by (rule takeWhile_cong) (simp_all add: P)
  have dw: "dropWhile ?P ?us = dropWhile (\<lambda>x. local < ?s x) ?us"
    by (rule dropWhile_cong) (simp_all add: P)
  have "\<not> ?P u"
    using assms(3) by (simp add: location_above_def)
  then have "u \<notin> set (takeWhile ?P ?us)"
    by (auto dest: set_takeWhileD)
  moreover have "set ?us = set (takeWhile ?P ?us) \<union> set (dropWhile ?P ?us)"
    by (metis set_append takeWhile_dropWhile_id)
  ultimately have uin: "u \<in> set (dropWhile ?P ?us)"
    using assms(2) by auto
  then obtain r rs where rest: "dropWhile ?P ?us = r # rs"
    by (cases "dropWhile ?P ?us") auto
  have rin: "r \<in> set ?us"
    using rest by (metis list.set_intros(1) set_dropWhileD)
  have "?s r \<le> local"
    using desc_dropWhile_le [OF a2, of r local] rest dw by simp
  moreover have "desc ?s (r # rs)"
    using desc_dropWhile [OF a2, of ?P] rest by simp
  then have "u = r \<or> ?s u < ?s r"
    using uin rest by auto
  ultimately have "u = r"
    using assms(3) by auto
  then have "location_is (heap vm) local (hd (dropWhile ?P ?us))"
    using rest assms(3) by (simp add: location_is_def)
  then show ?thesis
    using rest \<open>u = r\<close> by (simp add: captureUpvalue_def Let_def)
qed

lemma captureUpvalue_new:
  assumes "open_upvalues_sorted vm"
    and "heap vm fresh = None"
    and "\<forall>u\<in>set (openUpvalues vm). slot_of (heap vm) u \<noteq> Some local"
  shows "fst (captureUpvalue fresh vm local) = fresh"
    and "heap (snd (captureUpvalue fresh vm local))
           = (heap vm)(fresh \<mapsto> OBJ_UPVALUE (StackSlot local) NIL_VAL)"
    and "openUpvalues (snd (captureUpvalue fresh vm local))
           = takeWhile (\<lambda>u. local < the (slot_of (heap vm) u)) (openUpvalues vm)
             @ fresh # dropWhile (\<lambda>u. local < the (slot_of (heap vm) u)) (openUpvalues vm)"
    and "open_upvalues_sorted (snd (captureUpvalue fresh vm local))"
proof -
  let ?s = "\<lambda>x. the (slot_of (heap vm) x)"
  let ?P = "location_above (heap vm) local"
  let ?us = "openUpvalues vm"
  let ?h' = "(heap vm)(fresh \<mapsto> OBJ_UPVALUE (StackSlot local) NIL_VAL)"
  let ?s' = "\<lambda>x. the (slot_of ?h' x)"
  from assms(1) have a1: "\<forall>x\<in>set ?us. slot_of (heap vm) x \<noteq> None"
    and a2: "desc ?s ?us"
    by (simp_all add: open_upvalues_sorted_iff)
  have P: "?P x = (local < ?s x)" if "x \<in> set ?us" for x
    using a1 that by (simp add: location_above_open)
  have tw: "takeWhile ?P ?us = takeWhile (\<lambda>x. local < ?s x) ?us"
    by (rule takeWhile_cong) (simp_all add: P)
  have dw: "dropWhile ?P ?us = dropWhile (\<lambda>x. local < ?s x) ?us"
    by (rule dropWhile_cong) (simp_all add: P)
  have nohit: "\<not> (dropWhile ?P ?us \<noteq> [] \<and> location_is (heap vm) local (hd (dropWhile ?P ?us)))"
  proof
    assume h: "dropWhile ?P ?us \<noteq> [] \<and> location_is (heap vm) local (hd (dropWhile ?P ?us))"
    then have "hd (dropWhile ?P ?us) \<in> set ?us"
      by (metis hd_in_set set_dropWhileD)
    moreover from h have "slot_of (heap vm) (hd (dropWhile ?P ?us)) = Some local"
      by (auto simp: location_is_def split: option.splits)
    ultimately show False
      using assms(3) by blast
  qed
  have cap: "captureUpvalue fresh vm local
      = (fresh, vm\<lparr>heap := ?h', openUpvalues := takeWhile ?P ?us @ fresh # dropWhile ?P ?us\<rparr>)"
  proof -
    from nohit have "(dropWhile ?P ?us \<noteq> [] \<and> location_is (heap vm) local (hd (dropWhile ?P ?us))) = False"
      by blast
    then show ?thesis
      by (simp only: captureUpvalue_def Let_def newUpvalue_def if_False)
  qed
  show "fst (captureUpvalue fresh vm local) = fresh"
    by (simp add: cap)
  show "heap (snd (captureUpvalue fresh vm local)) = ?h'"
    by (simp add: cap)
  show ou: "openUpvalues (snd (captureUpvalue fresh vm local))
           = takeWhile (\<lambda>u. local < ?s u) ?us @ fresh # dropWhile (\<lambda>u. local < ?s u) ?us"
    by (simp add: cap tw dw)
  have other: "x \<noteq> fresh" if "x \<in> set ?us" for x
    using a1 that assms(2) slot_of_in_heap [of "heap vm" x] by auto
  have same: "?s' x = ?s x" if "x \<in> set ?us" for x
    using other [OF that] by (simp add: slot_of_upd_other)
  have fr: "?s' fresh = local"
    by (simp add: slot_of_upd_open)
  have hd_ne: "dropWhile (\<lambda>u. local < ?s u) ?us = []
      \<or> ?s (hd (dropWhile (\<lambda>u. local < ?s u) ?us)) \<noteq> local"
  proof (cases "dropWhile (\<lambda>u. local < ?s u) ?us = []")
    case True
    then show ?thesis by simp
  next
    case False
    then have "hd (dropWhile (\<lambda>u. local < ?s u) ?us) \<in> set ?us"
      by (metis hd_in_set set_dropWhileD)
    with assms(3) a1 have "?s (hd (dropWhile (\<lambda>u. local < ?s u) ?us)) \<noteq> local"
      by (metis option.collapse)
    then show ?thesis by simp
  qed
  have d: "desc ?s' (takeWhile (\<lambda>u. local < ?s u) ?us @ fresh # dropWhile (\<lambda>u. local < ?s u) ?us)"
    by (rule desc_insert [OF a2 same fr hd_ne])
  have o: "\<forall>x\<in>set (takeWhile (\<lambda>u. local < ?s u) ?us @ fresh # dropWhile (\<lambda>u. local < ?s u) ?us).
             slot_of ?h' x \<noteq> None"
  proof
    fix x assume "x \<in> set (takeWhile (\<lambda>u. local < ?s u) ?us @ fresh # dropWhile (\<lambda>u. local < ?s u) ?us)"
    then consider "x = fresh" | "x \<in> set ?us"
      by (auto dest: set_takeWhileD set_dropWhileD)
    then show "slot_of ?h' x \<noteq> None"
    proof cases
      case 1
      then show ?thesis by (simp add: slot_of_upd_open)
    next
      case 2
      with other a1 show ?thesis by (simp add: slot_of_upd_other)
    qed
  qed
  show "open_upvalues_sorted (snd (captureUpvalue fresh vm local))"
    unfolding open_upvalues_sorted_iff ou
    using d o by (simp add: cap)
qed

lemma captureUpvalue_inv:
  assumes "open_upvalues_sorted vm" and "heap vm fresh = None"
  shows "open_upvalues_sorted (snd (captureUpvalue fresh vm local))"
proof (cases "\<exists>u\<in>set (openUpvalues vm). slot_of (heap vm) u = Some local")
  case True
  then obtain u where "u \<in> set (openUpvalues vm)" "slot_of (heap vm) u = Some local"
    by blast
  then show ?thesis
    using captureUpvalue_found [OF assms(1)] assms(1) by simp
next
  case False
  then show ?thesis
    using captureUpvalue_new(4) [OF assms] by blast
qed

lemma upvalues_reachable_sorted: "upvalues_reachable vm \<Longrightarrow> open_upvalues_sorted vm"
proof (induction rule: upvalues_reachable.induct)
  case (reset vm)
  then show ?case by (simp add: open_upvalues_sorted_def resetStack_def)
next
  case (capture vm fresh local)
  then show ?case by (simp add: captureUpvalue_inv)
next
  case (close vm last_slot)
  then show ?case using closeUpvalues_correct by blast
next
  case (other vm vm')
  have eq: "slot_of (heap vm') u = slot_of (heap vm) u" if "u \<in> set (openUpvalues vm)" for u
    using other.hyps(3) that by (simp add: list_all_iff)
  have "desc (\<lambda>u. the (slot_of (heap vm') u)) (openUpvalues vm)
      = desc (\<lambda>u. the (slot_of (heap vm) u)) (openUpvalues vm)"
    by (rule desc_cong) (simp add: eq)
  with other.IH other.hyps(2) eq show ?case
    by (simp add: open_upvalues_sorted_iff)
qed


lemma desc_distinct: "desc s us \<Longrightarrow> distinct (map s us)"
  by (induction us) auto

text \<open>
  C5. Between two instructions the list of open upvalues holds open upvalues only, with
  slots that strictly descend from the head on, hence at most one upvalue for a slot.
  \<^verbatim>\<open>captureUpvalue\<close> keeps this: when an upvalue of the list points at the requested slot it
  returns that upvalue and changes nothing; otherwise it allocates an open upvalue for the
  slot and links it in behind the upvalues with higher slots. \<^verbatim>\<open>closeUpvalues\<close> keeps it as
  well: it unlinks exactly the upvalues whose slot is at or above the boundary, each of them
  closed over the value of its slot, and leaves the others as they were.
\<close>

theorem open_upvalues_invariant:
  "(upvalues_reachable vm \<longrightarrow> open_upvalues_sorted vm)
   \<and> (open_upvalues_sorted vm \<longrightarrow>
        distinct (map (\<lambda>u. the (slot_of (heap vm) u)) (openUpvalues vm)))
   \<and> (open_upvalues_sorted vm \<and> heap vm fresh = None \<longrightarrow>
        open_upvalues_sorted (snd (captureUpvalue fresh vm local))
        \<and> (\<forall>u\<in>set (openUpvalues vm). slot_of (heap vm) u = Some local \<longrightarrow>
              captureUpvalue fresh vm local = (u, vm))
        \<and> ((\<forall>u\<in>set (openUpvalues vm). slot_of (heap vm) u \<noteq> Some local) \<longrightarrow>
              fst (captureUpvalue fresh vm local) = fresh
              \<and> heap (snd (captureUpvalue fresh vm local))
                  = (heap vm)(fresh \<mapsto> OBJ_UPVALUE (StackSlot local) NIL_VAL)
              \<and> openUpvalues (snd (captureUpvalue fresh vm local))
                  = takeWhile (\<lambda>u. local < the (slot_of (heap vm) u)) (openUpvalues vm)
                    @ fresh # dropWhile (\<lambda>u. local < the (slot_of (heap vm) u)) (openUpvalues vm)))
   \<and> (open_upvalues_sorted vm \<longrightarrow>
        open_upvalues_sorted (closeUpvalues vm last_slot)
        \<and> openUpvalues (closeUpvalues vm last_slot)
            = filter (\<lambda>u. the (slot_of (heap vm) u) < last_slot) (openUpvalues vm)
        \<and> (\<forall>u\<in>set (openUpvalues (closeUpvalues vm last_slot)).
              slot_of (heap (closeUpvalues vm last_slot)) u = slot_of (heap vm) u)
        \<and> (\<forall>u\<in>set (openUpvalues vm). last_slot \<le> the (slot_of (heap vm) u) \<longrightarrow>
              heap (closeUpvalues vm last_slot) u
                = Some (OBJ_UPVALUE ClosedField (stack vm ! the (slot_of (heap vm) u)))))"
proof (intro conjI impI)
  assume "upvalues_reachable vm"
  then show "open_upvalues_sorted vm"
    by (rule upvalues_reachable_sorted)
next
  assume "open_upvalues_sorted vm"
  then show "distinct (map (\<lambda>u. the (slot_of (heap vm) u)) (openUpvalues vm))"
    by (simp add: open_upvalues_sorted_iff desc_distinct)
next
  assume a: "open_upvalues_sorted vm \<and> heap vm fresh = None"
  then show "open_upvalues_sorted (snd (captureUpvalue fresh vm local))"
    by (simp add: captureUpvalue_inv)
  from a show "\<forall>u\<in>set (openUpvalues vm). slot_of (heap vm) u = Some local \<longrightarrow>
              captureUpvalue fresh vm local = (u, vm)"
    by (simp add: captureUpvalue_found)
  assume n: "\<forall>u\<in>set (openUpvalues vm). slot_of (heap vm) u \<noteq> Some local"
  from a n show "fst (captureUpvalue fresh vm local) = fresh"
    by (simp add: captureUpvalue_new(1))
  from a n show "heap (snd (captureUpvalue fresh vm local))
                  = (heap vm)(fresh \<mapsto> OBJ_UPVALUE (StackSlot local) NIL_VAL)"
    by (simp add: captureUpvalue_new(2))
  from a n show "openUpvalues (snd (captureUpvalue fresh vm local))
                  = takeWhile (\<lambda>u. local < the (slot_of (heap vm) u)) (openUpvalues vm)
                    @ fresh # dropWhile (\<lambda>u. local < the (slot_of (heap vm) u)) (openUpvalues vm)"
    by (simp add: captureUpvalue_new(3))
next
  assume a: "open_upvalues_sorted vm"
  note C = closeUpvalues_correct [OF a, of last_slot]
  from C show "open_upvalues_sorted (closeUpvalues vm last_slot)"
    by blast
  from C show "openUpvalues (closeUpvalues vm last_slot)
            = filter (\<lambda>u. the (slot_of (heap vm) u) < last_slot) (openUpvalues vm)"
    by blast
  from C show "\<forall>u\<in>set (openUpvalues (closeUpvalues vm last_slot)).
              slot_of (heap (closeUpvalues vm last_slot)) u = slot_of (heap vm) u"
    by blast
  from C show "\<forall>u\<in>set (openUpvalues vm). last_slot \<le> the (slot_of (heap vm) u) \<longrightarrow>
              heap (closeUpvalues vm last_slot) u
                = Some (OBJ_UPVALUE ClosedField (stack vm ! the (slot_of (heap vm) u)))"
    by blast
qed

lemma vm_upvalues_fields:
  "openUpvalues vm_upvalues = [0xD000, 0xC000]"
  "slot_of (heap vm_upvalues) 0xD000 = Some 3"
  "slot_of (heap vm_upvalues) 0xC000 = Some 1"
  "heap vm_upvalues 0xE000 = None"
  "stack vm_upvalues = [OBJ_VAL 0x7000, NIL_VAL, TRUE_VAL, FALSE_VAL]"
  by (simp_all add: vm_upvalues_def vm_script_def slot_of_def)

lemma vm_upvalues_sorted: "open_upvalues_sorted vm_upvalues"
  by (simp add: open_upvalues_sorted_def vm_upvalues_fields)

theorem open_upvalues_invariant_witness:
  "open_upvalues_sorted (resetStack vm_upvalues)
   \<and> openUpvalues (snd (captureUpvalue 0xE000 vm_upvalues 2)) = [0xD000, 0xE000, 0xC000]
   \<and> open_upvalues_sorted (snd (captureUpvalue 0xE000 vm_upvalues 2))
   \<and> captureUpvalue 0xE000 vm_upvalues 3 = (0xD000, vm_upvalues)
   \<and> openUpvalues (closeUpvalues vm_upvalues 2) = [0xC000]
   \<and> heap (closeUpvalues vm_upvalues 2) 0xD000 = Some (OBJ_UPVALUE ClosedField FALSE_VAL)
   \<and> open_upvalues_sorted (closeUpvalues vm_upvalues 2)"
proof -
  have fresh: "open_upvalues_sorted vm_upvalues \<and> heap vm_upvalues 0xE000 = None"
    by (simp add: vm_upvalues_sorted vm_upvalues_fields)
  have no2: "\<forall>u\<in>set (openUpvalues vm_upvalues). slot_of (heap vm_upvalues) u \<noteq> Some 2"
    by (simp add: vm_upvalues_fields)
  have w1: "open_upvalues_sorted (resetStack vm_upvalues)"
    using open_upvalues_invariant [of "resetStack vm_upvalues"] upvalues_reachable.reset
    by blast
  have w2: "openUpvalues (snd (captureUpvalue 0xE000 vm_upvalues 2)) = [0xD000, 0xE000, 0xC000]"
    using open_upvalues_invariant [of vm_upvalues "0xE000" 2] fresh no2
    by (simp add: vm_upvalues_fields)
  have w3: "open_upvalues_sorted (snd (captureUpvalue 0xE000 vm_upvalues 2))"
    using open_upvalues_invariant [of vm_upvalues "0xE000" 2] fresh by blast
  have w4: "captureUpvalue 0xE000 vm_upvalues 3 = (0xD000, vm_upvalues)"
    using open_upvalues_invariant [of vm_upvalues "0xE000" 3] fresh
    by (simp add: vm_upvalues_fields)
  have w5: "openUpvalues (closeUpvalues vm_upvalues 2) = [0xC000]"
    using open_upvalues_invariant [of vm_upvalues _ _ 2] vm_upvalues_sorted
    by (simp add: vm_upvalues_fields)
  have w6: "heap (closeUpvalues vm_upvalues 2) 0xD000 = Some (OBJ_UPVALUE ClosedField FALSE_VAL)"
    using open_upvalues_invariant [of vm_upvalues _ _ 2] vm_upvalues_sorted
    by (simp add: vm_upvalues_fields)
  have w7: "open_upvalues_sorted (closeUpvalues vm_upvalues 2)"
    using open_upvalues_invariant [of vm_upvalues _ _ 2] vm_upvalues_sorted by blast
  from w1 w2 w3 w4 w5 w6 w7 show ?thesis
    by simp
qed

subsection \<open>Defining a global that is already bound\<close>

text \<open>
  The first declaration of the script \<^verbatim>\<open>var a = 1; var a = 2;\<close>, in a fresh interpreter: it
  leaves the globals of the sample state \<open>vm_redefine\<close>.
\<close>

lemma op_define_global_first:
  "(case op_define_global (vm_script [NUMBER_VAL number_one]) string_a of
      Some (Next vm') \<Rightarrow>
        globals vm' = globals_clock_a (NUMBER_VAL number_one) \<and> stack vm' = [OBJ_VAL 0x7000]
    | _ \<Rightarrow> False)"
  by code_simp

text \<open>
  C9. \<^verbatim>\<open>OP_DEFINE_GLOBAL\<close> with a name that the globals already bind. The globals are a table
  as \<^verbatim>\<open>tableSet\<close> leaves it: the capacity is a power of two (at most \<open>2 ^ 29\<close>, so that the
  doubled capacity is an \<^verbatim>\<open>int\<close>) and is the length of the entry array. If \<^verbatim>\<open>tableGet\<close> finds a
  value under the name and the stack holds the new value, then the instruction finishes and
  the run goes on with the next instruction (no result is returned, so no runtime error);
  nothing is printed on the error stream; the value is popped; afterwards \<^verbatim>\<open>tableGet\<close> finds
  the new value under the name; and the globals are again a table of that shape.
\<close>

theorem op_define_global_rebinds:
  assumes m: "m \<le> 29" and cap: "capacity (globals vm) = 2 ^ m"
    and len: "length (entries (globals vm)) = 2 ^ m"
    and bound: "tableGet (globals vm) name = Some (Some old)"
    and top: "stack_peek vm 0 = Some v"
  shows "\<exists>vm' m'. op_define_global vm name = Some (Next vm')
           \<and> tableGet (globals vm') name = Some (Some v)
           \<and> stack vm' = butlast (stack vm)
           \<and> stderr vm' = stderr vm
           \<and> frames vm' = frames vm
           \<and> m' \<le> 30 \<and> capacity (globals vm') = 2 ^ m'
           \<and> length (entries (globals vm')) = 2 ^ m'"
proof -
  from tableSet_bound [OF m cap len bound, of v] obtain g m' where
    s: "tableSet (globals vm) name v = Some (False, g)"
    and g: "tableGet g name = Some (Some v)"
    and m': "m' \<le> 30" "capacity g = 2 ^ m'" "length (entries g) = 2 ^ m'"
    by blast
  from top have ne: "stack vm \<noteq> []"
    by (auto simp: stack_peek_def split: if_splits)
  let ?vm' = "vm\<lparr>globals := g, stack := butlast (stack vm)\<rparr>"
  have "op_define_global vm name = Some (Next ?vm')"
    using top s ne by (simp add: op_define_global_def pop_def)
  with g m' show ?thesis
    by (intro exI [of _ ?vm'] exI [of _ m']) simp
qed

text \<open>
  The second declaration of \<^verbatim>\<open>var a = 1; var a = 2;\<close>: the globals bind \<open>a\<close> to 1 and the
  number 2 is on the stack; afterwards \<open>a\<close> is 2.
\<close>

lemma vm_redefine_fields:
  "capacity (globals vm_redefine) = 2 ^ 3"
  "length (entries (globals vm_redefine)) = 2 ^ 3"
  "stack vm_redefine = [OBJ_VAL 0x7000, NUMBER_VAL number_two]"
  "stderr vm_redefine = []"
  by (simp_all add: vm_redefine_def vm_script_def globals_clock_a_def)

lemma vm_redefine_bound:
  "tableGet (globals vm_redefine) string_a = Some (Some (NUMBER_VAL number_one))"
  by code_simp

lemma vm_redefine_top: "stack_peek vm_redefine 0 = Some (NUMBER_VAL number_two)"
  by (simp add: stack_peek_def vm_redefine_fields)

theorem op_define_global_rebinds_witness:
  "\<exists>vm'. op_define_global vm_redefine string_a = Some (Next vm')
     \<and> tableGet (globals vm') string_a = Some (Some (NUMBER_VAL number_two))
     \<and> stack vm' = [OBJ_VAL 0x7000]
     \<and> stderr vm' = []"
  using op_define_global_rebinds [of 3 vm_redefine string_a "NUMBER_VAL number_one"
      "NUMBER_VAL number_two", OF _ vm_redefine_fields(1,2) vm_redefine_bound vm_redefine_top]
  by (auto simp: vm_redefine_fields)

section \<open>Properties of the compiler\<close>

subsection \<open>One parameter\<close>

text \<open>
  In panic mode an error is not reported. The loop of \<^verbatim>\<open>declareVariable\<close> changes nothing
  when every local that it compares has another name.
\<close>

lemma errorAt_panic: "panicMode st \<Longrightarrow> errorAt t m st = st"
  by (simp add: errorAt_def)

lemma error_panic: "panicMode st \<Longrightarrow> error m st = st"
  by (simp add: error_def errorAt_panic)

lemma identifiersEqual_iff: "identifiersEqual a b = (a = b)"
  by (auto simp: identifiersEqual_def)

lemma declareVariable_loop_same:
  assumes "\<forall>l\<in>set ls. (depth l \<noteq> - 1 \<and> depth l < scopeDepth (current_compiler st))
             \<or> panicMode st \<or> local_name l \<noteq> lexeme (parser_previous st)"
  shows "declareVariable_loop ls st = st"
  using assms
proof (induction ls)
  case Nil
  show ?case by simp
next
  case (Cons l ls)
  then have rest: "declareVariable_loop ls st = st"
    by simp
  from Cons.prems have
    "(depth l \<noteq> - 1 \<and> depth l < scopeDepth (current_compiler st))
       \<or> panicMode st \<or> local_name l \<noteq> lexeme (parser_previous st)"
    by simp
  then show ?case
    using rest by (auto simp: identifiersEqual_iff error_panic)
qed

text \<open>
  At the top level \<^verbatim>\<open>declareVariable\<close> returns at once: a global variable is not looked up
  among the locals, and declaring one a second time is no error of the compiler.
\<close>

lemma declareVariable_global:
  "scopeDepth (current_compiler st) = 0 \<Longrightarrow> declareVariable st = st"
  by (simp add: declareVariable_def)

lemma advance_token:
  assumes "tokens st = nx # rest" and "type nx \<noteq> TOKEN_ERROR"
  shows "compiler_advance st =
           st\<lparr>parser_previous := parser_current st, tokens := rest, parser_current := nx\<rparr>"
  using assms by (simp add: compiler_advance_def)

lemma take_locals_less:
  assumes "length done < 255"
  shows "take 256 (l0 # map f (done @ [p])) = take 256 (l0 # map f done) @ [f p]"
  using assms by simp

lemma take_locals_full:
  assumes "255 \<le> length done"
  shows "take 256 (l0 # map f (done @ [p])) = take 256 (l0 # map f done)"
  using assms by simp

text \<open>
  One turn of the loop over the parameters. \<open>done\<close> are the parameters read so far: the
  locals are slot 0 and one local for each of them, as far as the array has room, the
  arity is their number, and an error is pending exactly if there are more than 255.
\<close>

lemma parameter_step:
  assumes cur: "parser_current st = p" "type p = TOKEN_IDENTIFIER"
    and tk: "tokens st = nx # rest" "type nx \<noteq> TOKEN_ERROR"
    and sd: "scopeDepth (current_compiler st) = 1"
    and lc: "locals (current_compiler st) = take 256 (l0 # map parameter_local done)" "depth l0 = 0"
    and ar: "arity (comp_function (current_compiler st)) = int (length done)"
    and pm: "panicMode st = (255 < length done)" "hadError st = (255 < length done)"
    and new: "lexeme p \<notin> lexeme ` set done"
  shows "parameter sa st =
     Some (st\<lparr>parser_previous := p, tokens := rest, parser_current := nx,
        panicMode := (255 < length (done @ [p])), hadError := (255 < length (done @ [p])),
        compile_stderr := compile_stderr st @
          (if length done = 255 then [error_line p ''Can't have more than 255 parameters.''] else []),
        current_compiler := (current_compiler st)
          \<lparr>comp_function := (comp_function (current_compiler st))\<lparr>arity := int (length (done @ [p]))\<rparr>,
           locals := take 256 (l0 # map parameter_local (done @ [p]))\<rparr>\<rparr>)"
proof -
  have le: "(255 < length (done @ [p])) = (255 \<le> length done)"
    by auto
  have ar1: "int (length (done @ [p])) = int (length done) + 1"
    by simp
  let ?c = "current_compiler st"
  let ?s1 = "st\<lparr>current_compiler :=
                   ?c\<lparr>comp_function := (comp_function ?c)\<lparr>arity := arity (comp_function ?c) + 1\<rparr>\<rparr>\<rparr>"
  let ?s2 = "(if arity (comp_function (current_compiler ?s1)) > 255
                 then errorAtCurrent ''Can't have more than 255 parameters.'' ?s1
                 else ?s1)"
  let ?c1 = "?c\<lparr>comp_function := (comp_function ?c)\<lparr>arity := int (length done) + 1\<rparr>\<rparr>"
  let ?s2' = "st\<lparr>panicMode := (255 \<le> length done), hadError := (255 \<le> length done),
        compile_stderr := compile_stderr st @
          (if length done = 255 then [error_line p ''Can't have more than 255 parameters.''] else []),
        current_compiler := ?c1\<rparr>"
  have s2: "?s2 = ?s2'"
  proof (cases "length done < 255")
    case True
    with pm ar show ?thesis
      by simp
  next
    case False
    show ?thesis
    proof (cases "length done = 255")
      case True
      with pm ar cur show ?thesis
        by (simp add: errorAtCurrent_def errorAt_def error_line_def)
    next
      case False
      with \<open>\<not> length done < 255\<close> have "255 < length done"
        by simp
      with pm ar show ?thesis
        by (simp add: errorAtCurrent_def errorAt_def)
    qed
  qed
  let ?s3 = "?s2'\<lparr>parser_previous := p, tokens := rest, parser_current := nx\<rparr>"
  have s3: "consume TOKEN_IDENTIFIER ''Expect parameter name.'' ?s2' = ?s3"
    using cur tk by (simp add: consume_def check_def advance_token)
  have loop: "declareVariable_loop (rev (locals (current_compiler ?s3))) ?s3 = ?s3"
  proof (rule declareVariable_loop_same, rule ballI)
    fix l
    assume "l \<in> set (rev (locals (current_compiler ?s3)))"
    then have "l \<in> set (l0 # map parameter_local done)"
      using lc(1) by (auto dest: in_set_takeD)
    then show "(depth l \<noteq> - 1 \<and> depth l < scopeDepth (current_compiler ?s3))
             \<or> panicMode ?s3 \<or> local_name l \<noteq> lexeme (parser_previous ?s3)"
      using lc(2) sd new by (auto simp: parameter_local_def) (metis imageI)
  qed
  let ?xs = "locals (current_compiler st)"
  let ?final = "st\<lparr>parser_previous := p, tokens := rest, parser_current := nx,
        panicMode := (255 \<le> length done), hadError := (255 \<le> length done),
        compile_stderr := compile_stderr st @
          (if length done = 255 then [error_line p ''Can't have more than 255 parameters.''] else []),
        current_compiler := (current_compiler st)
          \<lparr>comp_function := (comp_function (current_compiler st))\<lparr>arity := int (length done) + 1\<rparr>,
           locals := take 256 (l0 # map parameter_local (done @ [p]))\<rparr>\<rparr>"
  have "defineVariable 0 (declareVariable ?s3) = Some ?final
          \<and> scopeDepth (current_compiler (declareVariable ?s3)) = 1"
  proof (cases "255 \<le> length done")
    case True
    then have len: "length ?xs = 256"
      using lc(1) by simp
    have nxt: "take 256 (l0 # map parameter_local (done @ [p])) = ?xs"
      using True lc(1) by simp
    have "?xs ! 255 = parameter_local (done ! 254)"
      using True lc(1) by simp
    then have "(?xs ! 255)\<lparr>depth := 1\<rparr> = ?xs ! 255"
      by (simp add: parameter_local_def)
    then have upd: "?xs[255 := (?xs ! 255)\<lparr>depth := 1\<rparr>] = ?xs"
      by simp
    have decl: "declareVariable ?s3 = ?s3"
      using sd len loop True pm
      by (simp add: declareVariable_def addLocal_def UINT8_COUNT_def error_def errorAt_def)
    have ne: "?xs \<noteq> []"
      using len by auto
    show ?thesis
      unfolding decl nxt
      using sd len upd ne True
      by (simp add: defineVariable_def markInitialized_def)
  next
    case False
    then have len: "length ?xs = length done + 1"
      using lc(1) by simp
    have nxt: "take 256 (l0 # map parameter_local (done @ [p])) = ?xs @ [parameter_local p]"
      using False lc(1) by simp
    have decl: "declareVariable ?s3 =
        ?s3\<lparr>current_compiler := ?c1\<lparr>locals := ?xs @
                   [\<lparr>local_name = lexeme p, depth = - 1, isCaptured = False\<rparr>]\<rparr>\<rparr>"
      using sd len loop False
      by (simp add: declareVariable_def addLocal_def UINT8_COUNT_def)
    let ?new = "\<lparr>local_name = lexeme p, depth = - 1, isCaptured = False\<rparr>"
    have upd: "(?xs @ [?new])[Suc (length done) := ((?xs @ [?new]) ! Suc (length done))\<lparr>depth := 1\<rparr>]
                 = ?xs @ [parameter_local p]"
      using len by (simp add: nth_append list_update_append parameter_local_def)
    show ?thesis
      unfolding decl nxt
      using sd len False
      by (simp add: defineVariable_def markInitialized_def upd)
  qed
  then show ?thesis
    unfolding parameter_def Let_def s2 le ar1
    by (simp add: parseVariable_def s3)
qed

subsection \<open>The parameter list\<close>

lemma separated_Cons: "xs \<noteq> [] \<Longrightarrow> separated c (x # xs) = x # c # separated c xs"
  by (cases xs) simp_all

lemma separated_hd: "xs \<noteq> [] \<Longrightarrow> separated c xs = hd xs # tl (separated c xs)"
  by (induction c xs rule: separated.induct) simp_all

lemma match_other:
  "type (parser_current st) \<noteq> ty \<Longrightarrow> compiler_match ty st = (False, st)"
  by (simp add: compiler_match_def check_def)

lemma match_token:
  assumes "type (parser_current st) = ty" and "tokens st = nx # rest" and "type nx \<noteq> TOKEN_ERROR"
  shows "compiler_match ty st =
           (True, st\<lparr>parser_previous := parser_current st, tokens := rest, parser_current := nx\<rparr>)"
  using assms by (simp add: compiler_match_def check_def advance_token)

lemma function_parameters_run:
  assumes types: "type comma = TOKEN_COMMA" "type close \<noteq> TOKEN_COMMA" "type close \<noteq> TOKEN_ERROR"
    and l0: "depth l0 = 0"
  shows "ps \<noteq> [] \<Longrightarrow> \<forall>p\<in>set ps. type p = TOKEN_IDENTIFIER
    \<Longrightarrow> distinct (map lexeme (done @ ps))
    \<Longrightarrow> parser_current st = hd ps
    \<Longrightarrow> tokens st = tl (separated comma ps) @ close # rest
    \<Longrightarrow> scopeDepth (current_compiler st) = 1
    \<Longrightarrow> locals (current_compiler st) = take 256 (l0 # map parameter_local done)
    \<Longrightarrow> arity (comp_function (current_compiler st)) = int (length done)
    \<Longrightarrow> panicMode st = (255 < length done)
    \<Longrightarrow> hadError st = (255 < length done)
    \<Longrightarrow> function_parameters sa st =
      Some (st\<lparr>parser_previous := last ps, tokens := rest, parser_current := close,
        panicMode := (255 < length (done @ ps)), hadError := (255 < length (done @ ps)),
        compile_stderr := compile_stderr st @
          (if length done \<le> 255 \<and> 255 < length (done @ ps)
           then [error_line ((done @ ps) ! 255) ''Can't have more than 255 parameters.'']
           else []),
        current_compiler := (current_compiler st)
          \<lparr>comp_function := (comp_function (current_compiler st))\<lparr>arity := int (length (done @ ps))\<rparr>,
           locals := take 256 (l0 # map parameter_local (done @ ps))\<rparr>\<rparr>)"
proof (induction ps arbitrary: "done" st)
  case Nil
  then show ?case by simp
next
  case (Cons p qs)
  let ?msg = "''Can't have more than 255 parameters.''"
  have tp: "type p = TOKEN_IDENTIFIER"
    using Cons.prems(2) by simp
  have cur: "parser_current st = p"
    using Cons.prems(4) by simp
  have new: "lexeme p \<notin> lexeme ` set done"
    using Cons.prems(3) by auto
  show ?case
  proof (cases qs)
    case Nil
    have tk: "tokens st = close # rest"
      using Cons.prems(5) Nil by simp
    note step = parameter_step [OF cur tp tk types(3) Cons.prems(6) Cons.prems(7) l0
        Cons.prems(8) Cons.prems(9) Cons.prems(10) new, of sa]
    show ?thesis
      apply (subst function_parameters.simps)
      apply (simp only: step option.case)
      apply (subst match_other)
       apply (simp add: types)
      using Nil
      apply (auto simp: nth_append)
      done
  next
    case (Cons q qs')
    have tk: "tokens st = comma # (q # tl (separated comma qs) @ close # rest)"
      using Cons.prems(5) Cons Cons.prems(1) separated_hd [of qs comma] by simp
    have tc: "type comma \<noteq> TOKEN_ERROR"
      using types(1) by simp
    have tq: "type q \<noteq> TOKEN_ERROR"
      using Cons.prems(2) Cons by simp
    note step = parameter_step [OF cur tp tk tc Cons.prems(6) Cons.prems(7) l0
        Cons.prems(8) Cons.prems(9) Cons.prems(10) new, of sa]
    let ?st1 = "st\<lparr>parser_previous := p, tokens := q # tl (separated comma qs) @ close # rest,
        parser_current := comma,
        panicMode := (255 < length (done @ [p])), hadError := (255 < length (done @ [p])),
        compile_stderr := compile_stderr st @
          (if length done = 255 then [error_line p ?msg] else []),
        current_compiler := (current_compiler st)
          \<lparr>comp_function := (comp_function (current_compiler st))\<lparr>arity := int (length (done @ [p]))\<rparr>,
           locals := take 256 (l0 # map parameter_local (done @ [p]))\<rparr>\<rparr>"
    let ?st2 = "?st1\<lparr>parser_previous := comma, tokens := tl (separated comma qs) @ close # rest,
        parser_current := q\<rparr>"
    have m: "compiler_match TOKEN_COMMA ?st1 = (True, ?st2)"
      using types(1) tq by (simp add: match_token)
    have qs: "qs \<noteq> []" "hd qs = q" "last (p # qs) = last qs"
      using Cons by simp_all
    have ih: "function_parameters sa ?st2 =
      Some (?st2\<lparr>parser_previous := last qs, tokens := rest, parser_current := close,
        panicMode := (255 < length ((done @ [p]) @ qs)), hadError := (255 < length ((done @ [p]) @ qs)),
        compile_stderr := compile_stderr ?st2 @
          (if length (done @ [p]) \<le> 255 \<and> 255 < length ((done @ [p]) @ qs)
           then [error_line (((done @ [p]) @ qs) ! 255) ?msg]
           else []),
        current_compiler := (current_compiler ?st2)
          \<lparr>comp_function := (comp_function (current_compiler ?st2))\<lparr>arity := int (length ((done @ [p]) @ qs))\<rparr>,
           locals := take 256 (l0 # map parameter_local ((done @ [p]) @ qs))\<rparr>\<rparr>)"
    proof (rule Cons.IH)
      show "qs \<noteq> []" by (rule qs(1))
      show "\<forall>p\<in>set qs. type p = TOKEN_IDENTIFIER"
        using Cons.prems(2) by simp
      show "distinct (map lexeme ((done @ [p]) @ qs))"
        using Cons.prems(3) by simp
      show "parser_current ?st2 = hd qs"
        using qs(2) by simp
      show "tokens ?st2 = tl (separated comma qs) @ close # rest"
        by simp
      show "scopeDepth (current_compiler ?st2) = 1"
        using Cons.prems(6) by simp
      show "locals (current_compiler ?st2) = take 256 (l0 # map parameter_local (done @ [p]))"
        by simp
      show "arity (comp_function (current_compiler ?st2)) = int (length (done @ [p]))"
        by simp
      show "panicMode ?st2 = (255 < length (done @ [p]))"
        by simp
      show "hadError ?st2 = (255 < length (done @ [p]))"
        by simp
    qed
    have run: "function_parameters sa st = function_parameters sa ?st2"
      apply (subst function_parameters.simps)
      apply (simp only: step option.case m prod.case bool.case if_True)
      done
    have nth: "length done = 255 \<Longrightarrow> (done @ p # qs) ! 255 = p"
      by (simp add: nth_append)
    show ?thesis
      unfolding run ih
      using qs(3) nth
      by (cases "length done = 255") (simp_all add: nth_append)
  qed
qed

text \<open>The whole of \<^verbatim>\<open>function\<close> for a function with the body \<^verbatim>\<open>{}\<close>.\<close>

lemma advance_clean:
  assumes "tokens st = rest" and "rest = [] \<or> type (hd rest) \<noteq> TOKEN_ERROR"
  shows "compiler_advance st =
           st\<lparr>parser_previous := parser_current st, tokens := tl rest,
              parser_current := (if rest = []
                 then \<lparr>type = TOKEN_EOF, lexeme = [], token_line = eof_line st\<rparr> else hd rest)\<rparr>"
  using assms by (cases rest) (simp_all add: compiler_advance_def)

lemma consume_token:
  assumes "type (parser_current st) = ty" and "tokens st = nx # rest" and "type nx \<noteq> TOKEN_ERROR"
  shows "consume ty m st =
           st\<lparr>parser_previous := parser_current st, tokens := rest, parser_current := nx\<rparr>"
  using assms by (simp add: consume_def check_def advance_token)

lemma compiler_function_run:
  assumes cur: "type (parser_current st) = TOKEN_LEFT_PAREN"
    and tk: "tokens st = separated comma ps @ rp # lb # rb # rest"
    and types: "type comma = TOKEN_COMMA" "type rp = TOKEN_RIGHT_PAREN"
      "type lb = TOKEN_LEFT_BRACE" "type rb = TOKEN_RIGHT_BRACE"
    and rest: "rest = [] \<or> type (hd rest) \<noteq> TOKEN_ERROR"
    and ps: "ps \<noteq> []" "\<forall>p\<in>set ps. type p = TOKEN_IDENTIFIER" "distinct (map lexeme ps)"
    and ok: "\<not> panicMode st" "\<not> hadError st"
    and room: "length (constants (currentChunk st)) < 256"
  shows "\<exists>st' fn. compiler_function fresh sa ty st = Some st'
           \<and> hadError st' = (255 < length ps)
           \<and> compile_stderr st' = compile_stderr st @
                (if 255 < length ps
                 then [error_line (ps ! 255) ''Can't have more than 255 parameters.''] else [])
           \<and> function_objects st' fresh = Some fn \<and> arity fn = int (length ps)
           \<and> code (currentChunk st') = code (currentChunk st) @
                [opcode OP_CLOSURE, word_of_int (int (length (constants (currentChunk st))))]"
proof -
  let ?l0 = "\<lparr>local_name = (if ty \<noteq> TYPE_FUNCTION then ''this'' else []),
                      depth = 0, isCaptured = False\<rparr>"
  let ?f0 = "if ty \<noteq> TYPE_SCRIPT
              then newFunction\<lparr>function_name := Some (lexeme (parser_previous st))\<rparr>
              else newFunction"
  let ?c1 = "\<lparr>comp_function = ?f0, function_type = ty, locals = [?l0], upvalues = [], scopeDepth = 1\<rparr>"
  let ?s1 = "st\<lparr>enclosing := current_compiler st # enclosing st, current_compiler := ?c1\<rparr>"
  have s1: "beginScope (initCompiler ty st) = ?s1"
    by (simp add: beginScope_def initCompiler_def)
  have sep: "separated comma ps = hd ps # tl (separated comma ps)"
    using ps(1) by (rule separated_hd)
  have hdp: "type (hd ps) = TOKEN_IDENTIFIER"
    using ps(1,2) by simp
  let ?s2 = "?s1\<lparr>parser_previous := parser_current st,
                tokens := tl (separated comma ps) @ rp # lb # rb # rest, parser_current := hd ps\<rparr>"
  have tk1: "tokens ?s1 = hd ps # (tl (separated comma ps) @ rp # lb # rb # rest)"
  proof -
    have "separated comma ps @ rp # lb # rb # rest
            = hd ps # (tl (separated comma ps) @ rp # lb # rb # rest)"
      using sep by (metis append_Cons)
    with tk show ?thesis
      by simp
  qed
  have s2: "consume TOKEN_LEFT_PAREN ''Expect '(' after function name.'' ?s1 = ?s2"
    using consume_token [of ?s1 TOKEN_LEFT_PAREN, OF _ tk1] cur hdp by simp
  have chk: "\<not> check TOKEN_RIGHT_PAREN ?s2"
    using hdp by (simp add: check_def)
  let ?msg = "''Can't have more than 255 parameters.''"
  let ?n = "length ps"
  let ?c3 = "?c1\<lparr>comp_function := ?f0\<lparr>arity := int ?n\<rparr>,
                 locals := take 256 (?l0 # map parameter_local ps)\<rparr>"
  let ?s3 = "?s2\<lparr>parser_previous := last ps, tokens := lb # rb # rest, parser_current := rp,
        panicMode := (255 < ?n), hadError := (255 < ?n),
        compile_stderr := compile_stderr st @ (if 255 < ?n then [error_line (ps ! 255) ?msg] else []),
        current_compiler := ?c3\<rparr>"
  have s3: "function_parameters sa ?s2 = Some ?s3"
  proof -
    have "function_parameters sa ?s2 =
      Some (?s2\<lparr>parser_previous := last ps, tokens := lb # rb # rest, parser_current := rp,
        panicMode := (255 < length ([] @ ps)), hadError := (255 < length ([] @ ps)),
        compile_stderr := compile_stderr ?s2 @
          (if length ([] :: Token list) \<le> 255 \<and> 255 < length ([] @ ps)
           then [error_line (([] @ ps) ! 255) ?msg]
           else []),
        current_compiler := (current_compiler ?s2)
          \<lparr>comp_function := (comp_function (current_compiler ?s2))\<lparr>arity := int (length ([] @ ps))\<rparr>,
           locals := take 256 (?l0 # map parameter_local ([] @ ps))\<rparr>\<rparr>)"
    proof (rule function_parameters_run [where comma = comma])
      show "type comma = TOKEN_COMMA" by (rule types(1))
      show "type rp \<noteq> TOKEN_COMMA" "type rp \<noteq> TOKEN_ERROR"
        using types(2) by simp_all
      show "depth ?l0 = 0" by simp
      show "ps \<noteq> []" by (rule ps(1))
      show "\<forall>p\<in>set ps. type p = TOKEN_IDENTIFIER" by (rule ps(2))
      show "distinct (map lexeme ([] @ ps))" using ps(3) by simp
      show "parser_current ?s2 = hd ps" by simp
      show "tokens ?s2 = tl (separated comma ps) @ rp # lb # rb # rest" by simp
      show "scopeDepth (current_compiler ?s2) = 1" by simp
      show "locals (current_compiler ?s2) = take 256 (?l0 # map parameter_local [])" by simp
      show "arity (comp_function (current_compiler ?s2)) = int (length ([] :: Token list))"
        by (simp add: newFunction_def)
      show "panicMode ?s2 = (255 < length ([] :: Token list))" using ok by simp
      show "hadError ?s2 = (255 < length ([] :: Token list))" using ok by simp
    qed
    then show ?thesis
      by simp
  qed
  let ?s4 = "?s3\<lparr>parser_previous := rp, tokens := rb # rest, parser_current := lb\<rparr>"
  have s4: "consume TOKEN_RIGHT_PAREN ''Expect ')' after parameters.'' ?s3 = ?s4"
    using consume_token [of ?s3 TOKEN_RIGHT_PAREN lb "rb # rest"] types by simp
  let ?s5 = "?s4\<lparr>parser_previous := lb, tokens := rest, parser_current := rb\<rparr>"
  have s5: "consume TOKEN_LEFT_BRACE ''Expect '{' before function body.'' ?s4 = ?s5"
    using consume_token [of ?s4 TOKEN_LEFT_BRACE rb rest] types by simp
  let ?s6 = "?s5\<lparr>parser_previous := rb, tokens := tl rest,
              parser_current := (if rest = []
                 then \<lparr>type = TOKEN_EOF, lexeme = [], token_line = eof_line st\<rparr> else hd rest)\<rparr>"
  have s6: "block ?s5 = Some ?s6"
    using advance_clean [of ?s5 rest] rest types
    by (simp add: block_def check_def consume_def)
  have up: "upvalueCount ?f0 = 0" "arity (?f0\<lparr>arity := int ?n\<rparr>) = int ?n"
    by (simp_all add: newFunction_def)
  have chk': "(\<not> check TOKEN_RIGHT_PAREN ?s2) = True"
    using chk by simp
  show ?thesis
    unfolding compiler_function_def Let_def s1 s2 chk' if_True s3 option.case s4 s5 s6
    using room ok
    apply (simp add: endCompiler_def emitReturn_def emitByte_def emitBytes_def makeConstant_def
        addConstant_def currentChunk_def set_currentChunk_def error_def errorAt_def UINT8_MAX_def
        writeChunk_def up)
    done
qed

subsection \<open>The argument list\<close>

text \<open>
  The counter \<^verbatim>\<open>argCount\<close> is a byte: before the 256th argument it is 255, and it is 255
  again only after 511 arguments, when an error is pending already.
\<close>

lemma argCount_small: "k < 255 \<Longrightarrow> (of_nat k :: 8 word) \<noteq> 255"
proof
  assume k: "k < 255" and e: "(of_nat k :: 8 word) = 255"
  have "unat (of_nat k :: 8 word) = k"
    using k by (simp add: unat_of_nat)
  with e k show False
    by simp
qed

lemma literal_emits:
  assumes "type (parser_previous st) \<in> {TOKEN_FALSE, TOKEN_NIL, TOKEN_TRUE}"
  shows "literal st = emitByte (literal_code (parser_previous st)) st"
  using assms by (auto simp: literal_def literal_code_def)

lemma literal_rule:
  assumes "ty \<in> {TOKEN_FALSE, TOKEN_NIL, TOKEN_TRUE}"
  shows "prefix_fn (getRule ty) = Some Fn_literal"
  using assms by auto

lemma expression_literal:
  assumes cur: "parser_current st = a" "type a \<in> {TOKEN_FALSE, TOKEN_NIL, TOKEN_TRUE}"
    and tk: "tokens st = nx # rest" "type nx \<in> {TOKEN_COMMA, TOKEN_RIGHT_PAREN}"
  shows "expression st =
     Some (emitByte (literal_code a)
             (st\<lparr>parser_previous := a, tokens := rest, parser_current := nx\<rparr>))"
proof -
  let ?s1 = "st\<lparr>parser_previous := a, tokens := rest, parser_current := nx\<rparr>"
  have ne: "type nx \<noteq> TOKEN_ERROR"
    using tk(2) by auto
  have adv: "compiler_advance st = ?s1"
    using advance_token [OF tk(1) ne] cur(1) by simp
  have rule: "prefix_fn (getRule (type (parser_previous ?s1))) = Some Fn_literal"
    using literal_rule [OF cur(2)] by simp
  have lit: "literal ?s1 = emitByte (literal_code a) ?s1"
    using literal_emits [of ?s1] cur(2) by simp
  have cur2: "parser_current (emitByte (literal_code a) ?s1) = nx"
    by (simp add: emitByte_def set_currentChunk_def)
  have low: "\<not> precedence_rank PREC_ASSIGNMENT \<le> precedence_rank (precedence (getRule (type nx)))"
    using tk(2) by auto
  have eq: "compiler_match TOKEN_EQUAL (emitByte (literal_code a) ?s1)
              = (False, emitByte (literal_code a) ?s1)"
    using tk(2) cur2 by (intro match_other) auto
  show ?thesis
    unfolding expression_def parsePrecedence_def Let_def adv rule option.case call_parse_fn_def
    using low eq by (simp add: lit cur2)
qed

lemma argument_step:
  assumes cur: "parser_current st = a" "type a \<in> {TOKEN_FALSE, TOKEN_NIL, TOKEN_TRUE}"
    and tk: "tokens st = nx # rest" "type nx \<in> {TOKEN_COMMA, TOKEN_RIGHT_PAREN}"
    and pm: "panicMode st = (255 < k)" "hadError st = (255 < k)"
  shows "argument (of_nat k) st =
     Some (of_nat (Suc k),
       st\<lparr>parser_previous := a, tokens := rest, parser_current := nx,
          panicMode := (255 < Suc k), hadError := (255 < Suc k),
          compile_stderr := compile_stderr st @
            (if k = 255 then [error_line a ''Can't have more than 255 arguments''] else []),
          current_compiler := (current_compiler st)
            \<lparr>comp_function := (comp_function (current_compiler st))
               \<lparr>chunk := (currentChunk st)
                  \<lparr>code := code (currentChunk st) @ [literal_code a],
                   lines := lines (currentChunk st) @ [token_line a]\<rparr>\<rparr>\<rparr>\<rparr>)"
proof -
  have le: "(255 < Suc k) = (255 \<le> k)"
    by auto
  have ty: "type a \<noteq> TOKEN_EOF" "type a \<noteq> TOKEN_ERROR"
    using cur(2) by auto
  consider "k < 255" | "k = 255" | "255 < k"
    by linarith
  then show ?thesis
  proof cases
    case 1
    with pm argCount_small [OF 1] show ?thesis
      unfolding argument_def expression_literal [OF cur tk] le
      by (simp add: emitByte_def set_currentChunk_def writeChunk_def currentChunk_def)
  next
    case 2
    with pm ty show ?thesis
      unfolding argument_def expression_literal [OF cur tk] le
      by (simp add: emitByte_def set_currentChunk_def writeChunk_def currentChunk_def
            error_def errorAt_def error_line_def)
  next
    case 3
    with pm show ?thesis
      unfolding argument_def expression_literal [OF cur tk] le
      by (simp add: emitByte_def set_currentChunk_def writeChunk_def currentChunk_def
            error_def errorAt_def)
  qed
qed

lemma argumentList_loop_run:
  assumes types: "type comma = TOKEN_COMMA" "type close = TOKEN_RIGHT_PAREN"
  shows "as \<noteq> [] \<Longrightarrow> \<forall>a\<in>set as. type a \<in> {TOKEN_FALSE, TOKEN_NIL, TOKEN_TRUE}
    \<Longrightarrow> parser_current st = hd as
    \<Longrightarrow> tokens st = tl (separated comma as) @ close # rest
    \<Longrightarrow> panicMode st = (255 < k)
    \<Longrightarrow> hadError st = (255 < k)
    \<Longrightarrow> argumentList_loop (of_nat k) st =
      Some (of_nat (k + length as),
        st\<lparr>parser_previous := last as, tokens := rest, parser_current := close,
          panicMode := (255 < k + length as), hadError := (255 < k + length as),
          compile_stderr := compile_stderr st @
            (if k \<le> 255 \<and> 255 < k + length as
             then [error_line (as ! (255 - k)) ''Can't have more than 255 arguments'']
             else []),
          current_compiler := (current_compiler st)
            \<lparr>comp_function := (comp_function (current_compiler st))
               \<lparr>chunk := (currentChunk st)
                  \<lparr>code := code (currentChunk st) @ map literal_code as,
                   lines := lines (currentChunk st) @ map token_line as\<rparr>\<rparr>\<rparr>\<rparr>)"
proof (induction as arbitrary: k st)
  case Nil
  then show ?case by simp
next
  case (Cons a bs)
  let ?msg = "''Can't have more than 255 arguments''"
  have ta: "type a \<in> {TOKEN_FALSE, TOKEN_NIL, TOKEN_TRUE}"
    using Cons.prems(2) by simp
  have cur: "parser_current st = a"
    using Cons.prems(3) by simp
  show ?case
  proof (cases bs)
    case Nil
    have tk: "tokens st = close # rest"
      using Cons.prems(4) Nil by simp
    have tc: "type close \<in> {TOKEN_COMMA, TOKEN_RIGHT_PAREN}"
      using types(2) by simp
    note step = argument_step [OF cur ta tk tc Cons.prems(5) Cons.prems(6)]
    show ?thesis
      apply (subst argumentList_loop.simps)
      apply (simp only: step option.case prod.case)
      apply (subst match_other)
       apply (simp add: types)
      using Nil
      apply (auto simp: currentChunk_def)
      done
  next
    case (Cons b bs')
    have tk: "tokens st = comma # (b # tl (separated comma bs) @ close # rest)"
      using Cons.prems(4) Cons separated_hd [of bs comma] by simp
    have tc: "type comma \<in> {TOKEN_COMMA, TOKEN_RIGHT_PAREN}"
      using types(1) by simp
    have tb: "type b \<noteq> TOKEN_ERROR"
      using Cons.prems(2) Cons by auto
    note step = argument_step [OF cur ta tk tc Cons.prems(5) Cons.prems(6)]
    let ?ch = "(currentChunk st)
                  \<lparr>code := code (currentChunk st) @ [literal_code a],
                   lines := lines (currentChunk st) @ [token_line a]\<rparr>"
    let ?st1 = "st\<lparr>parser_previous := a, tokens := b # tl (separated comma bs) @ close # rest,
          parser_current := comma,
          panicMode := (255 < Suc k), hadError := (255 < Suc k),
          compile_stderr := compile_stderr st @
            (if k = 255 then [error_line a ?msg] else []),
          current_compiler := (current_compiler st)
            \<lparr>comp_function := (comp_function (current_compiler st))\<lparr>chunk := ?ch\<rparr>\<rparr>\<rparr>"
    let ?st2 = "?st1\<lparr>parser_previous := comma, tokens := tl (separated comma bs) @ close # rest,
        parser_current := b\<rparr>"
    have m: "compiler_match TOKEN_COMMA ?st1 = (True, ?st2)"
      using types(1) tb by (simp add: match_token)
    have bs: "bs \<noteq> []" "hd bs = b" "last (a # bs) = last bs"
      using Cons by simp_all
    have ih: "argumentList_loop (of_nat (Suc k)) ?st2 =
      Some (of_nat (Suc k + length bs),
        ?st2\<lparr>parser_previous := last bs, tokens := rest, parser_current := close,
          panicMode := (255 < Suc k + length bs), hadError := (255 < Suc k + length bs),
          compile_stderr := compile_stderr ?st2 @
            (if Suc k \<le> 255 \<and> 255 < Suc k + length bs
             then [error_line (bs ! (255 - Suc k)) ?msg]
             else []),
          current_compiler := (current_compiler ?st2)
            \<lparr>comp_function := (comp_function (current_compiler ?st2))
               \<lparr>chunk := (currentChunk ?st2)
                  \<lparr>code := code (currentChunk ?st2) @ map literal_code bs,
                   lines := lines (currentChunk ?st2) @ map token_line bs\<rparr>\<rparr>\<rparr>\<rparr>)"
    proof (rule Cons.IH)
      show "bs \<noteq> []" by (rule bs(1))
      show "\<forall>a\<in>set bs. type a \<in> {TOKEN_FALSE, TOKEN_NIL, TOKEN_TRUE}"
        using Cons.prems(2) by simp
      show "parser_current ?st2 = hd bs"
        using bs(2) by simp
      show "tokens ?st2 = tl (separated comma bs) @ close # rest"
        by simp
      show "panicMode ?st2 = (255 < Suc k)"
        by simp
      show "hadError ?st2 = (255 < Suc k)"
        by simp
    qed
    have run: "argumentList_loop (of_nat k) st = argumentList_loop (of_nat (Suc k)) ?st2"
      apply (subst argumentList_loop.simps)
      apply (simp only: step option.case m prod.case bool.case if_True)
      done
    have nth: "(a # bs) ! (255 - k) = bs ! (255 - Suc k)" if "k < 255"
    proof -
      from that have "255 - k = Suc (255 - Suc k)"
        by simp
      then show ?thesis
        by (simp only: nth_Cons_Suc)
    qed
    show ?thesis
      unfolding run ih
      using bs(3) nth
      by (cases "k = 255") (auto simp: currentChunk_def)
  qed
qed

lemma compiler_call_run:
  assumes cur: "parser_current st = hd as"
    and tk: "tokens st = tl (separated comma as) @ rp # rest"
    and types: "type comma = TOKEN_COMMA" "type rp = TOKEN_RIGHT_PAREN"
    and rest: "rest = [] \<or> type (hd rest) \<noteq> TOKEN_ERROR"
    and as: "as \<noteq> []" "\<forall>a\<in>set as. type a \<in> {TOKEN_FALSE, TOKEN_NIL, TOKEN_TRUE}"
    and ok: "\<not> panicMode st" "\<not> hadError st"
  shows "\<exists>st'. compiler_call canAssign st = Some st'
           \<and> hadError st' = (255 < length as)
           \<and> compile_stderr st' = compile_stderr st @
                (if 255 < length as
                 then [error_line (as ! 255) ''Can't have more than 255 arguments''] else [])
           \<and> code (currentChunk st') = code (currentChunk st) @ map literal_code as @
                [opcode OP_CALL, of_nat (length as)]"
proof -
  let ?msg = "''Can't have more than 255 arguments''"
  let ?n = "length as"
  let ?s1 = "st\<lparr>parser_previous := last as, tokens := rest, parser_current := rp,
          panicMode := (255 < 0 + ?n), hadError := (255 < 0 + ?n),
          compile_stderr := compile_stderr st @
            (if (0::nat) \<le> 255 \<and> 255 < 0 + ?n then [error_line (as ! (255 - 0)) ?msg] else []),
          current_compiler := (current_compiler st)
            \<lparr>comp_function := (comp_function (current_compiler st))
               \<lparr>chunk := (currentChunk st)
                  \<lparr>code := code (currentChunk st) @ map literal_code as,
                   lines := lines (currentChunk st) @ map token_line as\<rparr>\<rparr>\<rparr>\<rparr>"
  have loop: "argumentList_loop (of_nat 0) st = Some (of_nat (0 + ?n), ?s1)"
    using ok by (intro argumentList_loop_run [OF types as(1) as(2) cur tk]) simp_all
  have hd: "type (hd as) \<in> {TOKEN_FALSE, TOKEN_NIL, TOKEN_TRUE}"
    using as by simp
  have chk: "(\<not> check TOKEN_RIGHT_PAREN st) = True"
    using hd cur by (auto simp: check_def)
  let ?s2 = "?s1\<lparr>parser_previous := rp, tokens := tl rest,
              parser_current := (if rest = []
                 then \<lparr>type = TOKEN_EOF, lexeme = [], token_line = eof_line st\<rparr> else hd rest)\<rparr>"
  have s2: "consume TOKEN_RIGHT_PAREN ''Expect ')' after arguments.'' ?s1 = ?s2"
    using advance_clean [of ?s1 rest] rest types
    by (simp add: check_def consume_def)
  have z: "(0 :: 8 word) = of_nat 0"
    by simp
  show ?thesis
    unfolding compiler_call_def argumentList_def chk if_True z loop option.case prod.case s2
    by (simp add: emitBytes_def emitByte_def set_currentChunk_def currentChunk_def writeChunk_def)
qed

subsection \<open>The limits\<close>

text \<open>
  Two small compilations, evaluated: \<^verbatim>\<open>fun f(p, pp) {}\<close> leaves a function of arity 2 whose
  code is \<^verbatim>\<open>OP_NIL\<close>, \<^verbatim>\<open>OP_RETURN\<close>, and \<^verbatim>\<open>f(nil, nil)\<close> ends in \<^verbatim>\<open>OP_CALL\<close> 2.
\<close>

lemma compile_two_parameters:
  "(case compiler_function 0x8000 (\<lambda>s. 0x1000) TYPE_FUNCTION
           (declaration_state (parameter_names 2)) of
      None \<Rightarrow> False
    | Some st' \<Rightarrow>
        \<not> hadError st'
        \<and> map_option arity (function_objects st' 0x8000) = Some 2
        \<and> map_option (\<lambda>f. code (chunk f)) (function_objects st' 0x8000)
            = Some [opcode OP_NIL, opcode OP_RETURN]
        \<and> code (currentChunk st') = [opcode OP_CLOSURE, 1]
        \<and> constants (currentChunk st') = [OBJ_VAL 0x1000, OBJ_VAL 0x8000])"
  by code_simp

lemma compile_two_arguments:
  "(case compiler_call False (call_state (nil_arguments 2)) of
      None \<Rightarrow> False
    | Some st' \<Rightarrow>
        \<not> hadError st'
        \<and> code (currentChunk st')
            = [opcode OP_GET_GLOBAL, 0, opcode OP_NIL, opcode OP_NIL, opcode OP_CALL, 2])"
  by code_simp

text \<open>
  C7. A function declaration: \<^verbatim>\<open>function\<close> starts with the opening parenthesis as the
  current token and reads the parameters \<open>ps\<close>, identifiers with distinct names and commas
  between them, then a closing parenthesis and the body \<^verbatim>\<open>{}\<close>; no error is pending, and the
  chunk of the enclosing function has room for a constant. A call: \<^verbatim>\<open>call\<close> reads the
  arguments \<open>as\<close>, literals \<^verbatim>\<open>false\<close>, \<^verbatim>\<open>nil\<close> or \<^verbatim>\<open>true\<close> with commas between them, then a
  closing parenthesis. Both return. The compiler reports an error exactly when there are
  more than 255 parameters, respectively arguments: with 255 the error flag stays clear and
  nothing is printed, with one more the flag is set and the message names token number
  256. The compiled function has the number of parameters as its arity, and the call
  instruction gets the number of arguments as a byte.
\<close>

theorem parameter_and_argument_limit:
  assumes "type (parser_current st) = TOKEN_LEFT_PAREN"
    and "tokens st = separated comma ps @ rp # lb # rb # rest"
    and "type comma = TOKEN_COMMA" and "type rp = TOKEN_RIGHT_PAREN"
    and "type lb = TOKEN_LEFT_BRACE" and "type rb = TOKEN_RIGHT_BRACE"
    and "rest = [] \<or> type (hd rest) \<noteq> TOKEN_ERROR"
    and "ps \<noteq> []" and "\<forall>p\<in>set ps. type p = TOKEN_IDENTIFIER" and "distinct (map lexeme ps)"
    and "\<not> panicMode st" and "\<not> hadError st"
    and "length (constants (currentChunk st)) < 256"
    and "parser_current st2 = hd as"
    and "tokens st2 = tl (separated comma as) @ rp # rest2"
    and "rest2 = [] \<or> type (hd rest2) \<noteq> TOKEN_ERROR"
    and "as \<noteq> []" and "\<forall>a\<in>set as. type a \<in> {TOKEN_FALSE, TOKEN_NIL, TOKEN_TRUE}"
    and "\<not> panicMode st2" and "\<not> hadError st2"
  shows "(\<exists>st' fn. compiler_function fresh string_address ty st = Some st'
           \<and> hadError st' = (255 < length ps)
           \<and> compile_stderr st' = compile_stderr st @
                (if 255 < length ps
                 then [error_line (ps ! 255) ''Can't have more than 255 parameters.''] else [])
           \<and> function_objects st' fresh = Some fn \<and> arity fn = int (length ps))
       \<and> (\<exists>st'. compiler_call canAssign st2 = Some st'
           \<and> hadError st' = (255 < length as)
           \<and> compile_stderr st' = compile_stderr st2 @
                (if 255 < length as
                 then [error_line (as ! 255) ''Can't have more than 255 arguments''] else [])
           \<and> code (currentChunk st') = code (currentChunk st2) @ map literal_code as @
                [opcode OP_CALL, of_nat (length as)])"
proof
  from compiler_function_run [OF assms(1-13), of fresh string_address ty]
  show "\<exists>st' fn. compiler_function fresh string_address ty st = Some st'
           \<and> hadError st' = (255 < length ps)
           \<and> compile_stderr st' = compile_stderr st @
                (if 255 < length ps
                 then [error_line (ps ! 255) ''Can't have more than 255 parameters.''] else [])
           \<and> function_objects st' fresh = Some fn \<and> arity fn = int (length ps)"
    by blast
next
  show "\<exists>st'. compiler_call canAssign st2 = Some st'
           \<and> hadError st' = (255 < length as)
           \<and> compile_stderr st' = compile_stderr st2 @
                (if 255 < length as
                 then [error_line (as ! 255) ''Can't have more than 255 arguments''] else [])
           \<and> code (currentChunk st') = code (currentChunk st2) @ map literal_code as @
                [opcode OP_CALL, of_nat (length as)]"
    by (rule compiler_call_run [OF assms(14,15) assms(3,4) assms(16-20)])
qed

text \<open>
  The sample declarations and calls satisfy the hypotheses: the names \<open>p\<close>, \<open>pp\<close>, \<open>ppp\<close>,
  and so on differ in length.
\<close>

lemma parameter_names_facts:
  "length (parameter_names n) = n"
  "\<forall>p\<in>set (parameter_names n). type p = TOKEN_IDENTIFIER"
  "distinct (map lexeme (parameter_names n))"
proof -
  show "length (parameter_names n) = n"
    by (simp add: parameter_names_def)
  show "\<forall>p\<in>set (parameter_names n). type p = TOKEN_IDENTIFIER"
    by (simp add: parameter_names_def tok_def)
  have "map lexeme (parameter_names n) = map (\<lambda>i. replicate (Suc i) CHR ''p'') [0..<n]"
    by (simp add: parameter_names_def tok_def comp_def)
  moreover have "inj_on (\<lambda>i. replicate (Suc i) CHR ''p'') (set [0..<n])"
  proof (rule inj_onI)
    fix i j
    assume "replicate (Suc i) CHR ''p'' = replicate (Suc j) CHR ''p''"
    then have "length (replicate (Suc i) CHR ''p'') = length (replicate (Suc j) CHR ''p'')"
      by (rule arg_cong)
    then show "i = j"
      by simp
  qed
  ultimately show "distinct (map lexeme (parameter_names n))"
    by (simp add: distinct_map)
qed

lemma nil_arguments_facts:
  "length (nil_arguments n) = n"
  "\<forall>a\<in>set (nil_arguments n). type a \<in> {TOKEN_FALSE, TOKEN_NIL, TOKEN_TRUE}"
  by (simp_all add: nil_arguments_def tok_def)

lemma tok_type: "type (tok ty s) = ty"
  by (simp add: tok_def)

lemma declaration_state_facts:
  "type (parser_current (declaration_state ps)) = TOKEN_LEFT_PAREN"
  "tokens (declaration_state ps) = separated (tok TOKEN_COMMA '','') ps @
     tok TOKEN_RIGHT_PAREN '')'' # tok TOKEN_LEFT_BRACE ''{'' # tok TOKEN_RIGHT_BRACE ''}'' # []"
  "\<not> panicMode (declaration_state ps)" "\<not> hadError (declaration_state ps)"
  "length (constants (currentChunk (declaration_state ps))) < 256"
  "compile_stderr (declaration_state ps) = []"
  by (simp_all add: declaration_state_def tok_def currentChunk_def script_compiler_def
        newFunction_def initChunk_def)

lemma call_state_facts:
  "parser_current (call_state as) = hd as"
  "tokens (call_state as) = tl (separated (tok TOKEN_COMMA '','') as) @
     tok TOKEN_RIGHT_PAREN '')'' # [tok TOKEN_SEMICOLON '';'']"
  "\<not> panicMode (call_state as)" "\<not> hadError (call_state as)"
  "compile_stderr (call_state as) = []"
  "code (currentChunk (call_state as)) = [opcode OP_GET_GLOBAL, 0]"
  by (simp_all add: call_state_def currentChunk_def script_compiler_def newFunction_def)

text \<open>
  A function with 255 parameters and a call with 255 arguments compile; with 256 of them
  the compiler reports an error.
\<close>

theorem parameter_and_argument_limit_witness:
  "(\<exists>st'. compiler_function 0x8000 (\<lambda>s. 0x1000) TYPE_FUNCTION
             (declaration_state (parameter_names 255)) = Some st' \<and> \<not> hadError st')
   \<and> (\<exists>st'. compiler_call False (call_state (nil_arguments 255)) = Some st' \<and> \<not> hadError st')
   \<and> (\<exists>st'. compiler_function 0x8000 (\<lambda>s. 0x1000) TYPE_FUNCTION
             (declaration_state (parameter_names 256)) = Some st' \<and> hadError st')
   \<and> (\<exists>st'. compiler_call False (call_state (nil_arguments 256)) = Some st' \<and> hadError st')"
proof -
  have ne: "parameter_names n \<noteq> []" "nil_arguments n \<noteq> []" if "0 < n" for n
    using that parameter_names_facts(1) [of n] nil_arguments_facts(1) [of n] by auto
  have semi: "[tok TOKEN_SEMICOLON '';''] = [] \<or> type (hd [tok TOKEN_SEMICOLON '';'']) \<noteq> TOKEN_ERROR"
    by (simp add: tok_def)
  have a: "\<And>n. 0 < n \<Longrightarrow>
     (\<exists>st'. compiler_function 0x8000 (\<lambda>s. 0x1000) TYPE_FUNCTION
             (declaration_state (parameter_names n)) = Some st' \<and> hadError st' = (255 < n))
   \<and> (\<exists>st'. compiler_call False (call_state (nil_arguments n)) = Some st' \<and> hadError st' = (255 < n))"
  proof -
    fix n :: nat
    assume n: "0 < n"
    from parameter_and_argument_limit [of "declaration_state (parameter_names n)"
        "tok TOKEN_COMMA '',''" "parameter_names n" "tok TOKEN_RIGHT_PAREN '')''"
        "tok TOKEN_LEFT_BRACE ''{''" "tok TOKEN_RIGHT_BRACE ''}''" "[]"
        "call_state (nil_arguments n)" "nil_arguments n" "[tok TOKEN_SEMICOLON '';'']"
        "0x8000" "\<lambda>s. 0x1000" TYPE_FUNCTION False,
        OF declaration_state_facts(1,2) tok_type tok_type tok_type tok_type _ ne(1) [OF n]
          parameter_names_facts(2,3) declaration_state_facts(3,4,5) call_state_facts(1,2) semi
          ne(2) [OF n] nil_arguments_facts(2) call_state_facts(3,4)]
    show "(\<exists>st'. compiler_function 0x8000 (\<lambda>s. 0x1000) TYPE_FUNCTION
             (declaration_state (parameter_names n)) = Some st' \<and> hadError st' = (255 < n))
      \<and> (\<exists>st'. compiler_call False (call_state (nil_arguments n)) = Some st' \<and> hadError st' = (255 < n))"
      unfolding parameter_names_facts(1) nil_arguments_facts(1) by blast
  qed
  from a [of 255] a [of 256] show ?thesis
    by simp
qed

end
